theory Spec2Isabelle
  imports
    Main
    "HOL-Library.Word"
    "HOL-Library.Multiset"
    "HOL-Library.Char_ord"
    "HOL-Library.List_Lexorder"
    "HOL-Library.Product_Lexorder"
begin

section \<open>Data model\<close>

text \<open>
  The program is \<^verbatim>\<open>database_insert.py\<close>.  A record is the Python tuple
  \<^verbatim>\<open>(date, side, symbol, quantity, price)\<close> built by \<^verbatim>\<open>generate_records\<close>.

  A \<^verbatim>\<open>datetime.date\<close> is its triple (year, month, day); Python orders dates
  by that triple, which is the lexicographic order of the product type.  The
  constructor of \<^verbatim>\<open>date\<close> admits only the triples of \<open>valid_date\<close>.
\<close>

type_synonym date = "nat \<times> nat \<times> nat"

definition is_leap :: "nat \<Rightarrow> bool" where
  "is_leap y = (y mod 4 = 0 \<and> (y mod 100 \<noteq> 0 \<or> y mod 400 = 0))"

definition days_in_month :: "nat \<Rightarrow> nat \<Rightarrow> nat" where
  "days_in_month y m =
     (if m = 2 then (if is_leap y then 29 else 28)
      else if m = 4 \<or> m = 6 \<or> m = 9 \<or> m = 11 then 30 else 31)"

fun valid_date :: "date \<Rightarrow> bool" where
  "valid_date (y, m, d) =
     (1 \<le> y \<and> y \<le> 9999 \<and> 1 \<le> m \<and> m \<le> 12 \<and> 1 \<le> d \<and> d \<le> days_in_month y m)"

text \<open>
  The price is a Python float.  Its type is the parameter \<open>'f\<close>: the program
  only passes the price on to the JSON library.  Strings are Python \<^verbatim>\<open>str\<close>
  values over the code points below 256; bytes are 8-bit words.
\<close>

type_synonym 'f rec = "date \<times> string \<times> string \<times> int \<times> 'f"

type_synonym byte = "8 word"

text \<open>
  The Python values that reach \<^verbatim>\<open>json.dumps\<close> or come out of \<^verbatim>\<open>json.loads\<close>,
  and the date that \<^verbatim>\<open>decompress_group\<close> puts back into a row.  A dict is the
  list of its items in insertion order.
\<close>

datatype 'f pyval =
    PNone
  | PBool bool
  | PInt int
  | PFloat 'f
  | PStr string
  | PDate date
  | PList "'f pyval list"
  | PDict "(string \<times> 'f pyval) list"

text \<open>
  The exception classes.  \<open>CorruptBlobError\<close> is the class the specification
  names; no statement of the source defines or raises it.
\<close>

datatype exn =
    ZlibError | UnicodeEncodeError | UnicodeDecodeError | JSONDecodeError
  | TypeError | ValueError | IndexError | KeyError | CorruptBlobError

text \<open>A record as the Python tuple of its five fields.\<close>

fun as_tuple :: "'f rec \<Rightarrow> 'f pyval list" where
  "as_tuple (occurred_on, side, symbol, quantity, price) =
     [PDate occurred_on, PStr side, PStr symbol, PInt quantity, PFloat price]"

section \<open>Library functions\<close>

subsection \<open>datetime.date\<close>

text \<open>
  \<^verbatim>\<open>date.isoformat()\<close> is \<^verbatim>\<open>"%04d-%02d-%02d" % (year, month, day)\<close>: each
  number in decimal, padded with zeros to its width.
\<close>

definition digit_char :: "nat \<Rightarrow> char" where
  "digit_char n = char_of (48 + n mod 10)"

fun show_nat :: "nat \<Rightarrow> string" where
  "show_nat n = (if n < 10 then [digit_char n] else show_nat (n div 10) @ [digit_char n])"

declare show_nat.simps [simp del]

definition zero_pad :: "nat \<Rightarrow> string \<Rightarrow> string" where
  "zero_pad w s = replicate (w - length s) (CHR ''0'') @ s"

fun isoformat :: "date \<Rightarrow> string" where
  "isoformat (y, m, d) =
     zero_pad 4 (show_nat y) @ ''-'' @ zero_pad 2 (show_nat m) @ ''-'' @ zero_pad 2 (show_nat d)"

subsection \<open>zlib, json, UTF-8 and date.fromisoformat\<close>

text \<open>
  \<^verbatim>\<open>zlib.compress\<close>, \<^verbatim>\<open>zlib.decompress\<close>, \<^verbatim>\<open>json.dumps\<close>, \<^verbatim>\<open>json.loads\<close>,
  \<^verbatim>\<open>str.encode('utf-8')\<close>, \<^verbatim>\<open>bytes.decode('utf-8')\<close> and \<^verbatim>\<open>date.fromisoformat\<close>
  are not code of the program, and what they accept differs between versions
  of Python (\<^verbatim>\<open>date.fromisoformat\<close> reads more formats from Python 3.11 on).
  They are the fields of a library \<open>L\<close> that every function of the program
  takes; \<open>None\<close> is the exception the library function raises
  (\<^verbatim>\<open>zlib.error\<close>, TypeError of \<^verbatim>\<open>json.dumps\<close>, \<^verbatim>\<open>json.JSONDecodeError\<close>,
  UnicodeEncodeError, UnicodeDecodeError, ValueError of \<^verbatim>\<open>date.fromisoformat\<close>).
\<close>

record 'f pylib =
  zlib_compress :: "byte list \<Rightarrow> byte list"
  zlib_decompress :: "byte list \<Rightarrow> byte list option"
  json_dumps :: "'f pyval \<Rightarrow> string option"
  json_loads :: "string \<Rightarrow> 'f pyval option"
  utf8_encode :: "string \<Rightarrow> byte list option"
  utf8_decode :: "byte list \<Rightarrow> string option"
  date_fromisoformat :: "string \<Rightarrow> date option"

text \<open>
  What the program relies on: decompression inverts compression; a value built
  from lists, strings, integers and floats is serialised to a text that encodes
  to bytes, decodes back and parses back to the same value; and
  \<^verbatim>\<open>date.fromisoformat\<close> reads back what \<^verbatim>\<open>isoformat\<close> writes for a date.
  The contract is that of the libraries' documentation; the limits of an
  interpreter (memory, recursion depth, the digits of an integer it converts)
  are not part of it.
\<close>

fun wire_value :: "'f pyval \<Rightarrow> bool" where
  "wire_value (PInt i) = True"
| "wire_value (PFloat x) = True"
| "wire_value (PStr s) = True"
| "wire_value (PList vs) = list_all wire_value vs"
| "wire_value _ = False"

definition lib_contract :: "'f pylib \<Rightarrow> bool" where
  "lib_contract L =
     ((\<forall>b. zlib_decompress L (zlib_compress L b) = Some b) \<and>
      (\<forall>v. wire_value v \<longrightarrow>
         (\<exists>text data. json_dumps L v = Some text \<and> json_loads L text = Some v \<and>
            utf8_encode L text = Some data \<and> utf8_decode L data = Some text)) \<and>
      (\<forall>d. valid_date d \<longrightarrow> date_fromisoformat L (isoformat d) = Some d))"

section \<open>The program\<close>

subsection \<open>compress_group and decompress_group\<close>

text \<open>
  A \<^verbatim>\<open>for\<close> loop or comprehension whose body may raise: the first exception
  ends it.
\<close>

fun for_each :: "('a \<Rightarrow> exn + 'b) \<Rightarrow> 'a list \<Rightarrow> exn + 'b list" where
  "for_each f [] = Inr []"
| "for_each f (x # xs) =
     (case f x of
        Inl e \<Rightarrow> Inl e
      | Inr y \<Rightarrow> (case for_each f xs of Inl e \<Rightarrow> Inl e | Inr ys \<Rightarrow> Inr (y # ys)))"

text \<open>
  \<^verbatim>\<open>recs_as_str_date = [([r[0].isoformat()] + list(r[1:])) for r in recs_in_group]\<close>
  \<^verbatim>\<open>serialized_data = json.dumps(recs_as_str_date).encode('utf-8')\<close>
  \<^verbatim>\<open>compressed_data = zlib.compress(serialized_data)\<close>
  \<^verbatim>\<open>return (group_date, compressed_data)\<close>
\<close>

definition compress_group :: "'f pylib \<Rightarrow> date \<times> 'f rec list \<Rightarrow> exn + date \<times> byte list" where
  "compress_group L grp =
     (case grp of (group_date, recs_in_group) \<Rightarrow>
        (let recs_as_str_date =
               map (\<lambda>r. PList ([PStr (isoformat (fst r))] @ tl (as_tuple r))) recs_in_group
         in case json_dumps L (PList recs_as_str_date) of
              None \<Rightarrow> Inl TypeError
            | Some text \<Rightarrow>
                (case utf8_encode L text of
                   None \<Rightarrow> Inl UnicodeEncodeError
                 | Some serialized_data \<Rightarrow>
                     Inr (group_date, zlib_compress L serialized_data))))"

text \<open>
  \<^verbatim>\<open>for r in recs_from_blob\<close> iterates over whatever \<^verbatim>\<open>json.loads\<close> returned: the
  items of a list, the characters of a string, the keys of a dict; any other
  value is not iterable.
\<close>

fun py_iter :: "'f pyval \<Rightarrow> exn + 'f pyval list" where
  "py_iter (PList vs) = Inr vs"
| "py_iter (PStr s) = Inr (map (\<lambda>c. PStr [c]) s)"
| "py_iter (PDict kvs) = Inr (map (\<lambda>kv. PStr (fst kv)) kvs)"
| "py_iter _ = Inl TypeError"

text \<open>
  The loop body \<^verbatim>\<open>r[0] = date.fromisoformat(r[0]); ...append(tuple(r))\<close>.
  The right-hand side is evaluated first: \<^verbatim>\<open>r[0]\<close> raises IndexError on an
  empty list or string, KeyError on a dict (its keys are strings) and TypeError
  on a value without items; \<^verbatim>\<open>fromisoformat\<close> raises TypeError on a value that
  is not a string and ValueError on a string that is not a date.  The assignment
  then raises TypeError on a string.
\<close>

fun reconstruct :: "'f pylib \<Rightarrow> 'f pyval \<Rightarrow> exn + 'f pyval list" where
  "reconstruct L (PList []) = Inl IndexError"
| "reconstruct L (PList (PStr s # rest)) =
     (case date_fromisoformat L s of
        None \<Rightarrow> Inl ValueError
      | Some d \<Rightarrow> Inr (PDate d # rest))"
| "reconstruct L (PList (_ # rest)) = Inl TypeError"
| "reconstruct L (PStr []) = Inl IndexError"
| "reconstruct L (PStr (c # cs)) =
     (case date_fromisoformat L [c] of None \<Rightarrow> Inl ValueError | Some d \<Rightarrow> Inl TypeError)"
| "reconstruct L (PDict kvs) = Inl KeyError"
| "reconstruct L _ = Inl TypeError"

text \<open>
  \<^verbatim>\<open>decompressed_data = zlib.decompress(row[1])\<close>
  \<^verbatim>\<open>recs_from_blob = json.loads(decompressed_data.decode('utf-8'))\<close>
  and the loop.  The result is the list of the rebuilt tuples.
\<close>

definition decompress_group :: "'f pylib \<Rightarrow> date \<times> byte list \<Rightarrow> exn + 'f pyval list list" where
  "decompress_group L row =
     (case zlib_decompress L (snd row) of
        None \<Rightarrow> Inl ZlibError
      | Some decompressed_data \<Rightarrow>
          (case utf8_decode L decompressed_data of
             None \<Rightarrow> Inl UnicodeDecodeError
           | Some text \<Rightarrow>
               (case json_loads L text of
                  None \<Rightarrow> Inl JSONDecodeError
                | Some recs_from_blob \<Rightarrow>
                    (case py_iter recs_from_blob of
                       Inl e \<Rightarrow> Inl e
                     | Inr rs \<Rightarrow> for_each (reconstruct L) rs))))"

subsection \<open>main: grouping, dispatch, flattening, verification\<close>

text \<open>
  \<^verbatim>\<open>grouped_records = defaultdict(list)\<close>
  \<^verbatim>\<open>for rec in records: grouped_records[rec[0]].append(rec)\<close>

  A Python dict keeps its keys in insertion order and \<^verbatim>\<open>items()\<close> lists them
  in that order.  \<open>dict_append d k v\<close> is \<^verbatim>\<open>d[k].append(v)\<close> on a
  \<^verbatim>\<open>defaultdict(list)\<close>: a missing key is first bound to the empty list, at
  the end of the dict.
\<close>

fun dict_append :: "('k \<times> 'v list) list \<Rightarrow> 'k \<Rightarrow> 'v \<Rightarrow> ('k \<times> 'v list) list" where
  "dict_append [] k v = [(k, [v])]"
| "dict_append ((k', vs) # d) k v =
     (if k' = k then (k', vs @ [v]) # d else (k', vs) # dict_append d k v)"

definition group_records :: "'f rec list \<Rightarrow> (date \<times> 'f rec list) list" where
  "group_records records =
     foldl (\<lambda>grouped_records rec. dict_append grouped_records (fst rec) rec) [] records"

text \<open>
  \<^verbatim>\<open>Pool(processes).map(f, items)\<close> of \<^verbatim>\<open>multiprocessing\<close>, which is not code of
  the program.  It cuts the items into chunks of
  \<^verbatim>\<open>ceil(len(items) / (4 * processes))\<close> items; a chunk is one task, which applies
  \<open>f\<close> to its items in order and fails with the first exception.  The tasks
  complete in an order that the scheduling decides.  When every task succeeds
  the results are returned in the order of the items; otherwise the exception
  of the task that is the first to complete with a failure is raised.

  \<open>completion\<close> is the order in which the tasks complete, as indices of the
  chunks; a task it leaves out completes after the others, in the order of the
  chunks.  \<open>processes\<close> is \<^verbatim>\<open>cpu_count()\<close>, at least 1.
\<close>

definition chunk_size :: "nat \<Rightarrow> nat \<Rightarrow> nat" where
  "chunk_size n processes =
     (if n mod (processes * 4) \<noteq> 0 then n div (processes * 4) + 1 else n div (processes * 4))"

fun chunks :: "nat \<Rightarrow> 'a list \<Rightarrow> 'a list list" where
  "chunks n xs = (if n = 0 \<or> xs = [] then [] else take n xs # chunks n (drop n xs))"

declare chunks.simps [simp del]

definition first_failure :: "nat list \<Rightarrow> (exn + 'b) list \<Rightarrow> exn option" where
  "first_failure completion results =
     (case filter (\<lambda>i. i < length results \<and> isl (results ! i))
             (completion @ [0..<length results]) of
        [] \<Rightarrow> None
      | i # _ \<Rightarrow> Some (projl (results ! i)))"

definition pool_map ::
    "nat \<Rightarrow> nat list \<Rightarrow> ('a \<Rightarrow> exn + 'b) \<Rightarrow> 'a list \<Rightarrow> exn + 'b list" where
  "pool_map processes completion f items =
     (let tasks = chunks (chunk_size (length items) processes) items;
          results = map (for_each f) tasks
      in case first_failure completion results of
           Some e \<Rightarrow> Inl e
         | None \<Rightarrow> Inr (concat (map projr results)))"

text \<open>
  \<^verbatim>\<open>results_from_pool = pool.map(compress_group, grouped_records.items())\<close>
\<close>

definition write_phase ::
    "'f pylib \<Rightarrow> nat \<Rightarrow> nat list \<Rightarrow> 'f rec list \<Rightarrow> exn + (date \<times> byte list) list" where
  "write_phase L num_processes completion records =
     pool_map num_processes completion (compress_group L) (group_records records)"

text \<open>
  \<^verbatim>\<open>results_from_pool = pool.map(decompress_group, compressed_rows)\<close>
  \<^verbatim>\<open>all_retrieved_records = [item for sublist in results_from_pool for item in sublist]\<close>
\<close>

definition read_phase ::
    "'f pylib \<Rightarrow> nat \<Rightarrow> nat list \<Rightarrow> (date \<times> byte list) list \<Rightarrow> exn + 'f pyval list list" where
  "read_phase L num_processes completion compressed_rows =
     (case pool_map num_processes completion (decompress_group L) compressed_rows of
        Inl e \<Rightarrow> Inl e
      | Inr results_from_pool \<Rightarrow> Inr (concat results_from_pool))"

text \<open>
  \<^verbatim>\<open>sorted(records) == sorted(all_retrieved_records)\<close> on two sequences of
  records.  Python compares tuples lexicographically, field by field, which on
  records is the order of the product type; \<^verbatim>\<open>sorted\<close> returns the sorted
  list, which a linear order determines.
\<close>

definition verify :: "('f::linorder) rec list \<Rightarrow> 'f rec list \<Rightarrow> bool" where
  "verify records all_retrieved_records = (sort records = sort all_retrieved_records)"

section \<open>The encoder as the specification words it\<close>

text \<open>
  Step 1: the date of a record as its ISO calendar-date text, followed by the
  remaining fields.  The ISO 8601 calendar date is the four digits of the
  year, a hyphen, the two digits of the month, a hyphen and the two digits of
  the day.  Step 2: the ordered sequence of these rows serialised as JSON text,
  in bytes.  Step 3: the compressor applied to the bytes.
\<close>

fun iso_calendar_date :: "date \<Rightarrow> string" where
  "iso_calendar_date (y, m, d) =
     [digit_char (y div 1000), digit_char (y div 100), digit_char (y div 10), digit_char y]
     @ ''-'' @ [digit_char (m div 10), digit_char m]
     @ ''-'' @ [digit_char (d div 10), digit_char d]"

fun date_as_text :: "'f rec \<Rightarrow> 'f pyval" where
  "date_as_text (occurred_on, side, symbol, quantity, price) =
     PList [PStr (iso_calendar_date occurred_on), PStr side, PStr symbol, PInt quantity, PFloat price]"

definition serialize :: "'f pylib \<Rightarrow> 'f pyval list \<Rightarrow> exn + byte list" where
  "serialize L rows =
     (case json_dumps L (PList rows) of
        None \<Rightarrow> Inl TypeError
      | Some text \<Rightarrow>
          (case utf8_encode L text of None \<Rightarrow> Inl UnicodeEncodeError | Some data \<Rightarrow> Inr data))"

definition encode_spec :: "'f pylib \<Rightarrow> 'f rec list \<Rightarrow> exn + byte list" where
  "encode_spec L recs =
     (case serialize L (map date_as_text recs) of
        Inl e \<Rightarrow> Inl e
      | Inr data \<Rightarrow> Inr (zlib_compress L data))"

section \<open>A sample library\<close>

text \<open>
  One library that keeps the contract, for running the program on concrete
  inputs.  The theorems about the program hold for every library that keeps
  the contract; this one follows the Python functions on the values that the
  program writes, and says for each function what it leaves out.  The price is
  a number of hundredths (12.34 is 1234), printed the way \<^verbatim>\<open>repr\<close> prints such
  a float (\<^verbatim>\<open>12.34\<close>, \<^verbatim>\<open>5.0\<close>).
\<close>

subsection \<open>date.fromisoformat\<close>

text \<open>
  The format \<^verbatim>\<open>YYYY-MM-DD\<close> and nothing else, as \<^verbatim>\<open>date.fromisoformat\<close> reads
  it before Python 3.11; the date is built from the three numbers, which checks
  them.  The further formats of later versions are outside the sample.
\<close>

definition is_digit :: "char \<Rightarrow> bool" where
  "is_digit c = (48 \<le> (of_char c :: nat) \<and> (of_char c :: nat) \<le> 57)"

definition digit_val :: "char \<Rightarrow> nat" where
  "digit_val c = of_char c - 48"

definition digits_val :: "string \<Rightarrow> nat" where
  "digits_val s = foldl (\<lambda>n c. 10 * n + digit_val c) 0 s"

definition parse_digits :: "string \<Rightarrow> nat option" where
  "parse_digits s = (if list_all is_digit s then Some (digits_val s) else None)"

definition fromisoformat_strict :: "string \<Rightarrow> date option" where
  "fromisoformat_strict s =
     (if length s = 10 \<and> s ! 4 = CHR ''-'' \<and> s ! 7 = CHR ''-'' then
        (case (parse_digits (take 4 s), parse_digits (take 2 (drop 5 s)), parse_digits (drop 8 s)) of
           (Some y, Some m, Some d) \<Rightarrow> if valid_date (y, m, d) then Some (y, m, d) else None
         | _ \<Rightarrow> None)
      else None)"

subsection \<open>json.dumps\<close>

text \<open>
  The default \<^verbatim>\<open>json.dumps\<close>: separators \<^verbatim>\<open>", "\<close> and \<^verbatim>\<open>": "\<close>, and
  \<^verbatim>\<open>ensure_ascii\<close>, which writes every character outside the printable ASCII
  range as an escape.  A date is not serialisable (\<open>None\<close>, TypeError).
\<close>

definition show_int :: "int \<Rightarrow> string" where
  "show_int i = (if i < 0 then ''-'' @ show_nat (nat (- i)) else show_nat (nat i))"

definition hex_char :: "nat \<Rightarrow> char" where
  "hex_char n = (if n mod 16 < 10 then char_of (48 + n mod 16) else char_of (87 + n mod 16))"

definition escape_char :: "char \<Rightarrow> string" where
  "escape_char c =
     (if c = CHR 0x22 then [CHR 0x5C, CHR 0x22]
      else if c = CHR 0x5C then [CHR 0x5C, CHR 0x5C]
      else if c = CHR 0x0A then [CHR 0x5C, CHR ''n'']
      else if c = CHR 0x0D then [CHR 0x5C, CHR ''r'']
      else if c = CHR 0x09 then [CHR 0x5C, CHR ''t'']
      else if c = CHR 0x08 then [CHR 0x5C, CHR ''b'']
      else if c = CHR 0x0C then [CHR 0x5C, CHR ''f'']
      else if (of_char c :: nat) < 32 \<or> 126 < (of_char c :: nat)
        then [CHR 0x5C, CHR ''u'', CHR ''0'', CHR ''0'', hex_char (of_char c div 16), hex_char (of_char c)]
      else [c])"

definition show_str :: "string \<Rightarrow> string" where
  "show_str s = [CHR 0x22] @ concat (map escape_char s) @ [CHR 0x22]"

definition frac_digits :: "nat \<Rightarrow> string" where
  "frac_digits f =
     (if f mod 10 = 0 then [digit_char (f div 10)] else [digit_char (f div 10), digit_char f])"

definition show_price :: "int \<Rightarrow> string" where
  "show_price h =
     (let a = nat \<bar>h\<bar>
      in (if h < 0 then ''-'' else []) @ show_nat (a div 100) @ ''.'' @ frac_digits (a mod 100))"

fun join :: "string \<Rightarrow> string list \<Rightarrow> string" where
  "join sep [] = []"
| "join sep [x] = x"
| "join sep (x # y # ys) = x @ sep @ join sep (y # ys)"

fun dumps :: "int pyval \<Rightarrow> string option" where
  "dumps PNone = Some ''null''"
| "dumps (PBool b) = Some (if b then ''true'' else ''false'')"
| "dumps (PInt i) = Some (show_int i)"
| "dumps (PFloat h) = Some (show_price h)"
| "dumps (PStr s) = Some (show_str s)"
| "dumps (PDate d) = None"
| "dumps (PList vs) =
     map_option (\<lambda>ts. ''['' @ join '', '' ts @ '']'') (those (map dumps vs))"
| "dumps (PDict kvs) =
     map_option (\<lambda>ts. ''{'' @ join '', '' ts @ ''}'')
       (those (map (\<lambda>(k, v). map_option (\<lambda>t. show_str k @ '': '' @ t) (dumps v)) kvs))"


subsection \<open>json.loads\<close>

text \<open>
  The scanner of \<^verbatim>\<open>json.loads\<close>: whitespace, strings with their escapes,
  numbers by the grammar \<^verbatim>\<open>-?(0|[1-9][0-9]*)(\\.[0-9]+)?([eE][-+]?[0-9]+)?\<close>,
  the literals, arrays and objects; text after the value is an error.  The
  recursion on the nesting of the text is bounded by its length.  Outside the
  sample, and rejected here although Python accepts them: a number with an
  exponent or with more than two fraction digits, \<^verbatim>\<open>NaN\<close> and \<^verbatim>\<open>Infinity\<close>
  (no price in hundredths), and an escape \<^verbatim>\<open>\\uXXXX\<close> of a code point from 256.
\<close>

definition is_ws :: "char \<Rightarrow> bool" where
  "is_ws c = (c = CHR 0x20 \<or> c = CHR 0x09 \<or> c = CHR 0x0A \<or> c = CHR 0x0D)"

definition skip_ws :: "string \<Rightarrow> string" where
  "skip_ws s = dropWhile is_ws s"

definition hex_val :: "char \<Rightarrow> nat option" where
  "hex_val c =
     (let n = (of_char c :: nat)
      in if 48 \<le> n \<and> n \<le> 57 then Some (n - 48)
         else if 97 \<le> n \<and> n \<le> 102 then Some (n - 87)
         else if 65 \<le> n \<and> n \<le> 70 then Some (n - 55)
         else None)"

definition unescape :: "char \<Rightarrow> char option" where
  "unescape e =
     (if e = CHR 0x22 \<or> e = CHR 0x5C \<or> e = CHR ''/'' then Some e
      else if e = CHR ''b'' then Some (CHR 0x08)
      else if e = CHR ''f'' then Some (CHR 0x0C)
      else if e = CHR ''n'' then Some (CHR 0x0A)
      else if e = CHR ''r'' then Some (CHR 0x0D)
      else if e = CHR ''t'' then Some (CHR 0x09)
      else None)"

definition push :: "char \<Rightarrow> (string \<times> string) option \<Rightarrow> (string \<times> string) option" where
  "push c res = map_option (\<lambda>(s, rest). (c # s, rest)) res"

fun scan_string :: "string \<Rightarrow> (string \<times> string) option" where
  "scan_string [] = None"
| "scan_string (c # r) =
     (if c = CHR 0x22 then Some ([], r)
      else if c = CHR 0x5C then
        (case r of
           [] \<Rightarrow> None
         | e # r1 \<Rightarrow>
             if e = CHR ''u'' then
               (case r1 of
                  h1 # h2 # h3 # h4 # r2 \<Rightarrow>
                    (case (hex_val h1, hex_val h2, hex_val h3, hex_val h4) of
                       (Some a, Some b, Some x, Some y) \<Rightarrow>
                         if a = 0 \<and> b = 0 then push (char_of (16 * x + y)) (scan_string r2)
                         else None
                     | _ \<Rightarrow> None)
                | _ \<Rightarrow> None)
             else (case unescape e of
                     None \<Rightarrow> None
                   | Some x \<Rightarrow> push x (scan_string r1)))
      else if (of_char c :: nat) < 32 then None
      else push c (scan_string r))"

definition scan_exponent :: "string \<Rightarrow> string option" where
  "scan_exponent s =
     (case s of
        [] \<Rightarrow> None
      | c # r \<Rightarrow>
          if c = CHR ''e'' \<or> c = CHR ''E'' then
            (let r1 = (case r of
                         [] \<Rightarrow> r
                       | x # r2 \<Rightarrow> if x = CHR ''+'' \<or> x = CHR ''-'' then r2 else r)
             in if takeWhile is_digit r1 = [] then None else Some (dropWhile is_digit r1))
          else None)"

definition price_of :: "bool \<Rightarrow> string \<Rightarrow> string \<Rightarrow> int option" where
  "price_of neg ip frac =
     (if length frac \<le> 2 then
        (let h = int (digits_val (ip @ frac @ replicate (2 - length frac) CHR ''0''))
         in Some (if neg then - h else h))
      else None)"

definition int_part :: "string \<Rightarrow> string" where
  "int_part ds = (if hd ds = CHR ''0'' then [CHR ''0''] else ds)"

definition frac_part :: "string \<Rightarrow> string" where
  "frac_part s = (case s of [] \<Rightarrow> [] | c # r \<Rightarrow> if c = CHR ''.'' then takeWhile is_digit r else [])"

definition scan_number :: "string \<Rightarrow> (int pyval \<times> string) option" where
  "scan_number s =
     (let neg = (s \<noteq> [] \<and> hd s = CHR ''-'');
          s1 = (if neg then tl s else s);
          ds = takeWhile is_digit s1
      in if ds = [] then None
         else
           (let ip = int_part ds;
                s2 = drop (length ip) s1;
                frac = frac_part s2;
                s3 = (if frac = [] then s2 else drop (Suc (length frac)) s2)
            in case scan_exponent s3 of
                 Some s4 \<Rightarrow> None
               | None \<Rightarrow>
                   if frac = [] then
                     Some (PInt (if neg then - int (digits_val ip) else int (digits_val ip)), s2)
                   else map_option (\<lambda>h. (PFloat h, s3)) (price_of neg ip frac)))"

fun dict_put :: "(string \<times> 'v) list \<Rightarrow> string \<Rightarrow> 'v \<Rightarrow> (string \<times> 'v) list" where
  "dict_put [] k v = [(k, v)]"
| "dict_put ((k', v') # d) k v = (if k' = k then (k', v) # d else (k', v') # dict_put d k v)"

definition dict_of_pairs :: "(string \<times> 'v) list \<Rightarrow> (string \<times> 'v) list" where
  "dict_of_pairs kvs = foldl (\<lambda>d (k, v). dict_put d k v) [] kvs"

fun parse_value :: "nat \<Rightarrow> string \<Rightarrow> (int pyval \<times> string) option"
  and parse_items :: "nat \<Rightarrow> string \<Rightarrow> (int pyval list \<times> string) option"
  and parse_members :: "nat \<Rightarrow> string \<Rightarrow> ((string \<times> int pyval) list \<times> string) option"
where
  "parse_value 0 s = None"
| "parse_value (Suc n) s =
     (case s of
        [] \<Rightarrow> None
      | c # r \<Rightarrow>
          if c = CHR 0x22 then map_option (\<lambda>(t, rest). (PStr t, rest)) (scan_string r)
          else if c = CHR ''['' then
            (case skip_ws r of
               [] \<Rightarrow> None
             | c1 # r1 \<Rightarrow>
                 if c1 = CHR '']'' then Some (PList [], r1)
                 else map_option (\<lambda>(vs, rest). (PList vs, rest)) (parse_items n (c1 # r1)))
          else if c = CHR ''{'' then
            (case skip_ws r of
               [] \<Rightarrow> None
             | c1 # r1 \<Rightarrow>
                 if c1 = CHR ''}'' then Some (PDict [], r1)
                 else map_option (\<lambda>(kvs, rest). (PDict (dict_of_pairs kvs), rest))
                        (parse_members n (c1 # r1)))
          else if take 4 s = ''null'' then Some (PNone, drop 4 s)
          else if take 4 s = ''true'' then Some (PBool True, drop 4 s)
          else if take 5 s = ''false'' then Some (PBool False, drop 5 s)
          else scan_number s)"
| "parse_items 0 s = None"
| "parse_items (Suc n) s =
     (case parse_value n s of
        None \<Rightarrow> None
      | Some (v, r) \<Rightarrow>
          (case skip_ws r of
             [] \<Rightarrow> None
           | c # r1 \<Rightarrow>
               if c = CHR '']'' then Some ([v], r1)
               else if c = CHR '','' then
                 map_option (\<lambda>(vs, rest). (v # vs, rest)) (parse_items n (skip_ws r1))
               else None))"
| "parse_members 0 s = None"
| "parse_members (Suc n) s =
     (case s of
        [] \<Rightarrow> None
      | q # r \<Rightarrow>
          if q = CHR 0x22 then
            (case scan_string r of
               None \<Rightarrow> None
             | Some (k, r1) \<Rightarrow>
                 (case skip_ws r1 of
                    [] \<Rightarrow> None
                  | c1 # r2 \<Rightarrow>
                      if c1 = CHR '':'' then
                        (case parse_value n (skip_ws r2) of
                           None \<Rightarrow> None
                         | Some (v, r3) \<Rightarrow>
                             (case skip_ws r3 of
                                [] \<Rightarrow> None
                              | c2 # r4 \<Rightarrow>
                                  if c2 = CHR ''}'' then Some ([(k, v)], r4)
                                  else if c2 = CHR '','' then
                                    map_option (\<lambda>(kvs, rest). ((k, v) # kvs, rest))
                                      (parse_members n (skip_ws r4))
                                  else None))
                      else None))
          else None)"

definition loads :: "string \<Rightarrow> int pyval option" where
  "loads s =
     (case parse_value (Suc (length s)) (skip_ws s) of
        None \<Rightarrow> None
      | Some (v, r) \<Rightarrow> if skip_ws r = [] then Some v else None)"

subsection \<open>UTF-8\<close>

text \<open>
  \<^verbatim>\<open>str.encode('utf-8')\<close> on code points below 256: one byte below 128, two
  bytes from 128.  \<^verbatim>\<open>bytes.decode('utf-8')\<close> reads them back and rejects every
  other byte sequence; among these, the encodings of code points from 256 are
  outside the sample.
\<close>

definition utf8_char :: "char \<Rightarrow> byte list" where
  "utf8_char c =
     (let n = (of_char c :: nat)
      in if n < 128 then [of_nat n] else [of_nat (192 + n div 64), of_nat (128 + n mod 64)])"

definition utf8_enc :: "string \<Rightarrow> byte list option" where
  "utf8_enc s = Some (concat (map utf8_char s))"

fun utf8_dec :: "byte list \<Rightarrow> string option" where
  "utf8_dec [] = Some []"
| "utf8_dec (b # bs) =
     (if unat b < 128 then map_option (\<lambda>s. char_of (unat b) # s) (utf8_dec bs)
      else if unat b = 194 \<or> unat b = 195 then
        (case bs of
           [] \<Rightarrow> None
         | b2 # bs2 \<Rightarrow>
             if 128 \<le> unat b2 \<and> unat b2 < 192 then
               map_option (\<lambda>s. char_of ((unat b - 192) * 64 + (unat b2 - 128)) # s) (utf8_dec bs2)
             else None)
      else None)"


subsection \<open>zlib\<close>

text \<open>
  The zlib stream format (RFC 1950) with stored deflate blocks (RFC 1951), which
  is what \<^verbatim>\<open>zlib.compress(data, 0)\<close> writes: the header \<^verbatim>\<open>78 01\<close>, blocks of at
  most 65535 bytes, each with its length and the complement of its length, and
  the Adler-32 checksum of the data.  \<open>inflate\<close> checks the header, the
  lengths and the checksum and ignores what follows the stream, as
  \<^verbatim>\<open>zlib.decompress\<close> does; a Huffman-coded block is outside the sample.
\<close>

definition adler_step :: "nat \<times> nat \<Rightarrow> byte \<Rightarrow> nat \<times> nat" where
  "adler_step ab x = (let a = (fst ab + unat x) mod 65521 in (a, (snd ab + a) mod 65521))"

definition adler32 :: "byte list \<Rightarrow> nat" where
  "adler32 data = (let ab = foldl adler_step (1, 0) data in snd ab * 65536 + fst ab)"

definition be32 :: "nat \<Rightarrow> byte list" where
  "be32 n = [of_nat (n div 16777216), of_nat (n div 65536), of_nat (n div 256), of_nat n]"

definition le16 :: "nat \<Rightarrow> byte list" where
  "le16 n = [of_nat n, of_nat (n div 256)]"

definition stored_block :: "bool \<Rightarrow> byte list \<Rightarrow> byte list" where
  "stored_block final chunk =
     [if final then 1 else 0] @ le16 (length chunk) @ le16 (65535 - length chunk) @ chunk"

fun stored_blocks :: "byte list \<Rightarrow> byte list" where
  "stored_blocks data =
     (if length data \<le> 65535 then stored_block True data
      else stored_block False (take 65535 data) @ stored_blocks (drop 65535 data))"

declare stored_blocks.simps [simp del]

definition deflate_stored :: "byte list \<Rightarrow> byte list" where
  "deflate_stored data = [0x78, 0x01] @ stored_blocks data @ be32 (adler32 data)"

fun inflate_blocks :: "byte list \<Rightarrow> (byte list \<times> byte list) option" where
  "inflate_blocks bs =
     (if length bs < 5 then None
      else
        (let hdr = unat (bs ! 0);
             len = unat (bs ! 1) + 256 * unat (bs ! 2);
             nlen = unat (bs ! 3) + 256 * unat (bs ! 4);
             rest = drop 5 bs
         in if hdr div 2 mod 4 \<noteq> 0 then None
            else if len + nlen \<noteq> 65535 then None
            else if length rest < len then None
            else if hdr mod 2 = 1 then Some (take len rest, drop len rest)
            else (case inflate_blocks (drop len rest) of
                    None \<Rightarrow> None
                  | Some (out, rest') \<Rightarrow> Some (take len rest @ out, rest'))))"

declare inflate_blocks.simps [simp del]

definition inflate :: "byte list \<Rightarrow> byte list option" where
  "inflate bs =
     (case bs of
        cmf # flg # body \<Rightarrow>
          if unat cmf mod 16 = 8 \<and> unat cmf div 16 \<le> 7 \<and>
             (unat cmf * 256 + unat flg) mod 31 = 0 \<and> unat flg div 32 mod 2 = 0
          then (case inflate_blocks body of
                  None \<Rightarrow> None
                | Some (out, trailer) \<Rightarrow>
                    if take 4 trailer = be32 (adler32 out) then Some out else None)
          else None
      | _ \<Rightarrow> None)"

definition sample_lib :: "int pylib" where
  "sample_lib =
     \<lparr>zlib_compress = deflate_stored, zlib_decompress = inflate,
      json_dumps = dumps, json_loads = loads,
      utf8_encode = utf8_enc, utf8_decode = utf8_dec,
      date_fromisoformat = fromisoformat_strict\<rparr>"

section \<open>A concrete input\<close>

text \<open>
  The scenario of the specification: two records of 2023-05-01 and one of
  2023-05-02.  The prices 12.34, 99.99 and 5.00 are written in hundredths.
\<close>

definition scenario :: "int rec list" where
  "scenario =
     [((2023, 5, 1), ''BUY'', ''ABCD'', 100, 1234),
      ((2023, 5, 1), ''SELL'', ''WXYZ'', 50, 9999),
      ((2023, 5, 2), ''BUY'', ''ABCD'', 10, 500)]"

text \<open>
  The JSON text of the three rows of the scenario, as \<^verbatim>\<open>json.dumps\<close> writes it:
  \<^verbatim>\<open>[["2023-05-01", "BUY", "ABCD", 100, 12.34], ["2023-05-01", "SELL", "WXYZ", 50, 99.99], ["2023-05-02", "BUY", "ABCD", 10, 5.0]]\<close>
\<close>

definition scenario_text :: string where
  "scenario_text =
     ''[['' @ [CHR 0x22] @ ''2023-05-01'' @ [CHR 0x22] @ '', '' @ [CHR 0x22] @ ''BUY'' @ [CHR 0x22]
       @ '', '' @ [CHR 0x22] @ ''ABCD'' @ [CHR 0x22] @ '', 100, 12.34], [''
       @ [CHR 0x22] @ ''2023-05-01'' @ [CHR 0x22] @ '', '' @ [CHR 0x22] @ ''SELL'' @ [CHR 0x22]
       @ '', '' @ [CHR 0x22] @ ''WXYZ'' @ [CHR 0x22] @ '', 50, 99.99], [''
       @ [CHR 0x22] @ ''2023-05-02'' @ [CHR 0x22] @ '', '' @ [CHR 0x22] @ ''BUY'' @ [CHR 0x22]
       @ '', '' @ [CHR 0x22] @ ''ABCD'' @ [CHR 0x22] @ '', 10, 5.0]]''"

section \<open>Auxiliary definitions\<close>

text \<open>The keys of a list in the order of their first appearance.\<close>

definition first_keys :: "'k list \<Rightarrow> 'k list" where
  "first_keys ks = rev (remdups (rev ks))"

text \<open>The row that \<open>compress_group\<close> returns for a group, when it returns one.\<close>

definition blob_of :: "'f pylib \<Rightarrow> date \<times> 'f rec list \<Rightarrow> date \<times> byte list" where
  "blob_of L grp = (case compress_group L grp of Inr row \<Rightarrow> row | Inl e \<Rightarrow> (fst grp, []))"

text \<open>
  The text after a serialised value inside a list, or at the end: a number is
  scanned up to there.
\<close>

definition terminated :: "string \<Rightarrow> bool" where
  "terminated rest = (case rest of [] \<Rightarrow> True | c # _ \<Rightarrow> c = CHR '','' \<or> c = CHR '']'')"


text \<open>
  What \<open>dumps\<close> writes for a value of lists, strings, integers and prices, the
  depth of recursion that reading it back takes, and the characters such a text
  starts with.
\<close>

fun render :: "int pyval \<Rightarrow> string" where
  "render (PInt i) = show_int i"
| "render (PFloat h) = show_price h"
| "render (PStr s) = show_str s"
| "render (PList vs) = ''['' @ join '', '' (map render vs) @ '']''"
| "render _ = []"

fun fuel_of :: "int pyval \<Rightarrow> nat" where
  "fuel_of (PList vs) = Suc (sum_list (map (\<lambda>v. Suc (fuel_of v)) vs))"
| "fuel_of _ = 1"

definition value_start :: "char \<Rightarrow> bool" where
  "value_start c = (is_digit c \<or> c = CHR ''-'' \<or> c = CHR 0x22 \<or> c = CHR ''['')"


section \<open>Dates\<close>

lemma digit_char_0: "digit_char 0 = CHR ''0''"
  by code_simp

lemma show_nat_small: "n < 10 \<Longrightarrow> show_nat n = [digit_char n]"
  by (subst show_nat.simps) simp

lemma show_nat_snoc: "10 \<le> n \<Longrightarrow> show_nat n = show_nat (n div 10) @ [digit_char n]"
  by (subst show_nat.simps) simp

lemma replicate_small: "replicate 3 c = [c, c, c]" "replicate 2 c = [c, c]"
  by (simp_all add: numeral_3_eq_3 numeral_2_eq_2)

lemma zero_pad_two:
  assumes "m \<le> 99"
  shows "zero_pad 2 (show_nat m) = [digit_char (m div 10), digit_char m]"
proof (cases "m < 10")
  case True
  then show ?thesis
    by (simp add: zero_pad_def show_nat_small digit_char_0 replicate_small)
next
  case False
  with assms have "m div 10 < 10" by (simp add: div_less_iff_less_mult)
  with False show ?thesis
    by (simp add: zero_pad_def show_nat_snoc show_nat_small replicate_small)
qed

lemma zero_pad_four:
  assumes "y \<le> 9999"
  shows "zero_pad 4 (show_nat y) =
     [digit_char (y div 1000), digit_char (y div 100), digit_char (y div 10), digit_char y]"
proof -
  have h: "y div 100 = y div 10 div 10" and t: "y div 1000 = y div 10 div 10 div 10"
    by (simp_all add: div_mult2_eq [symmetric])
  have top: "y div 10 div 10 div 10 < 10"
    using assms unfolding t [symmetric] by (simp add: div_less_iff_less_mult)
  consider (a) "y < 10" | (b) "10 \<le> y" "y div 10 < 10"
    | (c) "10 \<le> y" "10 \<le> y div 10" "y div 10 div 10 < 10"
    | (d) "10 \<le> y" "10 \<le> y div 10" "10 \<le> y div 10 div 10"
    by linarith
  then show ?thesis
  proof cases
    case a
    then show ?thesis
      unfolding h t by (simp add: zero_pad_def show_nat_small digit_char_0 replicate_small)
  next
    case b
    then show ?thesis
      unfolding h t by (simp add: zero_pad_def show_nat_snoc show_nat_small digit_char_0 replicate_small)
  next
    case c
    then show ?thesis
      unfolding h t by (simp add: zero_pad_def show_nat_snoc show_nat_small digit_char_0 replicate_small)
  next
    case d
    with top show ?thesis
      unfolding h t by (simp add: zero_pad_def show_nat_snoc show_nat_small)
  qed
qed

text \<open>On a date, \<^verbatim>\<open>isoformat\<close> writes the ISO 8601 calendar date.\<close>

lemma isoformat_iso_calendar_date:
  assumes "valid_date dt"
  shows "isoformat dt = iso_calendar_date dt"
proof -
  obtain y m d where dt: "dt = (y, m, d)" by (cases dt)
  from assms have "y \<le> 9999" "m \<le> 99" "d \<le> 99"
    by (auto simp: dt days_in_month_def split: if_splits)
  then show ?thesis
    unfolding dt by (simp add: zero_pad_four zero_pad_two)
qed

lemma is_digit_digit_char [simp]: "is_digit (digit_char n)"
proof -
  have "48 + n mod 10 < 256" by simp
  then show ?thesis
    by (simp add: is_digit_def digit_char_def)
qed

lemma digit_val_digit_char [simp]: "digit_val (digit_char n) = n mod 10"
  by (simp add: digit_val_def digit_char_def)

lemma four_digits:
  fixes y :: nat
  assumes "y \<le> 9999"
  shows "10 * (10 * (10 * (y div 1000 mod 10) + y div 100 mod 10) + y div 10 mod 10) + y mod 10 = y"
proof -
  have a: "y div 100 = y div 10 div 10" and b: "y div 1000 = y div 10 div 10 div 10"
    by (simp_all add: div_mult2_eq [symmetric])
  have "y div 1000 < 10"
    using assms by (simp add: div_less_iff_less_mult)
  then have c: "y div 1000 mod 10 = y div 1000" by simp
  show ?thesis
    unfolding c unfolding a b by (simp add: mult_div_mod_eq)
qed

lemma two_digits:
  fixes m :: nat
  assumes "m \<le> 99"
  shows "10 * (m div 10 mod 10) + m mod 10 = m"
proof -
  have "m div 10 < 10"
    using assms by (simp add: div_less_iff_less_mult)
  then show ?thesis by simp
qed

lemma parse_digits4:
  "parse_digits [digit_char a, digit_char b, digit_char c, digit_char d] =
     Some (10 * (10 * (10 * (a mod 10) + b mod 10) + c mod 10) + d mod 10)"
  by (simp add: parse_digits_def digits_val_def)

lemma parse_digits2:
  "parse_digits [digit_char a, digit_char b] = Some (10 * (a mod 10) + b mod 10)"
  by (simp add: parse_digits_def digits_val_def)

lemma fromisoformat_strict_iso:
  assumes "valid_date dt"
  shows "fromisoformat_strict (iso_calendar_date dt) = Some dt"
proof -
  obtain y m d where dt: "dt = (y, m, d)" by (cases dt)
  from assms have y: "y \<le> 9999" and m: "m \<le> 99" and d: "d \<le> 99"
    by (auto simp: dt days_in_month_def split: if_splits)
  have t4: "take 4 (iso_calendar_date (y, m, d)) =
      [digit_char (y div 1000), digit_char (y div 100), digit_char (y div 10), digit_char y]"
    and t2: "take 2 (drop 5 (iso_calendar_date (y, m, d))) = [digit_char (m div 10), digit_char m]"
    and d8: "drop 8 (iso_calendar_date (y, m, d)) = [digit_char (d div 10), digit_char d]"
    by simp_all
  have py: "parse_digits (take 4 (iso_calendar_date (y, m, d))) = Some y"
    by (simp only: t4 parse_digits4 four_digits [OF y])
  have pm: "parse_digits (take 2 (drop 5 (iso_calendar_date (y, m, d)))) = Some m"
    by (simp only: t2 parse_digits2 two_digits [OF m])
  have pd: "parse_digits (drop 8 (iso_calendar_date (y, m, d))) = Some d"
    by (simp only: d8 parse_digits2 two_digits [OF d])
  have shape: "length (iso_calendar_date (y, m, d)) = 10"
    "iso_calendar_date (y, m, d) ! 4 = CHR ''-''" "iso_calendar_date (y, m, d) ! 7 = CHR ''-''"
    by simp_all
  show ?thesis
    using assms unfolding dt fromisoformat_strict_def py pm pd shape by simp
qed

section \<open>The grouping loop\<close>

lemma first_keys_snoc:
  "first_keys (ks @ [k]) = (if k \<in> set ks then first_keys ks else first_keys ks @ [k])"
  by (simp add: first_keys_def)

lemma set_first_keys: "set (first_keys ks) = set ks"
  by (simp add: first_keys_def)

lemma distinct_first_keys: "distinct (first_keys ks)"
  by (simp add: first_keys_def)

lemma dict_append_map:
  assumes "distinct ks"
  shows "dict_append (map (\<lambda>k. (k, f k)) ks) k v =
     (if k \<in> set ks then map (\<lambda>k'. (k', if k' = k then f k' @ [v] else f k')) ks
      else map (\<lambda>k. (k, f k)) ks @ [(k, [v])])"
  using assms by (induction ks) auto

text \<open>
  The loop computes, for every date in the order of its first appearance, the
  records of that date in their input order.
\<close>

lemma group_records_eq:
  "group_records rs = map (\<lambda>k. (k, filter (\<lambda>r. fst r = k) rs)) (first_keys (map fst rs))"
proof (induction rs rule: rev_induct)
  case Nil
  then show ?case by (simp add: group_records_def first_keys_def)
next
  case (snoc x xs)
  let ?old = "map (\<lambda>k. (k, filter (\<lambda>r. fst r = k) xs)) (first_keys (map fst xs))"
  have step: "group_records (xs @ [x]) = dict_append ?old (fst x) x"
    using snoc by (simp add: group_records_def)
  show ?case
  proof (cases "fst x \<in> fst ` set xs")
    case True
    then show ?thesis
      unfolding step by (simp add: dict_append_map distinct_first_keys first_keys_snoc set_first_keys)
  next
    case False
    then have "filter (\<lambda>r. fst r = fst x) xs = []"
      unfolding filter_empty_conv by (metis imageI)
    moreover have "\<And>k. k \<in> set (first_keys (map fst xs)) \<Longrightarrow> fst x \<noteq> k"
      using False unfolding set_first_keys set_map by blast
    ultimately show ?thesis
      unfolding step using False
      by (simp add: dict_append_map distinct_first_keys first_keys_snoc set_first_keys)
  qed
qed

lemma mset_concat_filters:
  "distinct ks \<Longrightarrow>
   mset (concat (map (\<lambda>k. filter (\<lambda>r. key r = k) rs) ks)) = mset (filter (\<lambda>r. key r \<in> set ks) rs)"
proof (induction ks)
  case Nil
  then show ?case by simp
next
  case (Cons k ks)
  have "mset (filter (\<lambda>r. key r = k) rs) + mset (filter (\<lambda>r. key r \<in> set ks) rs)
        = mset (filter (\<lambda>r. key r = k \<or> key r \<in> set ks) rs)"
    using Cons.prems by (induction rs) auto
  with Cons show ?case by simp
qed

lemma mset_group_records: "mset (concat (map snd (group_records rs))) = mset rs"
proof -
  have "mset (concat (map snd (group_records rs)))
        = mset (concat (map (\<lambda>k. filter (\<lambda>r. fst r = k) rs) (first_keys (map fst rs))))"
    by (simp add: group_records_eq comp_def)
  also have "\<dots> = mset (filter (\<lambda>r. fst r \<in> set (first_keys (map fst rs))) rs)"
    by (rule mset_concat_filters) (rule distinct_first_keys)
  also have "\<dots> = mset rs"
    by (simp add: set_first_keys)
  finally show ?thesis .
qed

text \<open>
  Claim C2.  The grouping loop returns a dict with distinct keys, the dates of
  the input; the group of a key holds exactly the input records of that date,
  in their input order, and is not empty; the groups together hold the input
  records, each as often as the input does, and their sizes add up to the
  number of input records.
\<close>

theorem group_records_partition:
  "distinct (map fst (group_records rs)) \<and>
   fst ` set (group_records rs) = fst ` set rs \<and>
   (\<forall>(k, grp) \<in> set (group_records rs). grp = filter (\<lambda>r. fst r = k) rs \<and> grp \<noteq> []) \<and>
   mset (concat (map snd (group_records rs))) = mset rs \<and>
   sum_list (map (\<lambda>(k, grp). length grp) (group_records rs)) = length rs"
proof -
  have keys: "map fst (group_records rs) = first_keys (map fst rs)"
    by (simp add: group_records_eq comp_def)
  have a: "distinct (map fst (group_records rs))"
    by (simp add: keys distinct_first_keys)
  have b: "fst ` set (group_records rs) = fst ` set rs"
    using arg_cong [OF keys, of set] by (simp add: set_first_keys)
  have c: "\<forall>(k, grp) \<in> set (group_records rs). grp = filter (\<lambda>r. fst r = k) rs \<and> grp \<noteq> []"
    by (auto simp: group_records_eq set_first_keys filter_empty_conv)
  have "sum_list (map (\<lambda>(k, grp). length grp) (group_records rs))
        = length (concat (map snd (group_records rs)))"
    by (simp add: length_concat comp_def case_prod_unfold)
  also have "\<dots> = size (mset (concat (map snd (group_records rs))))"
    by simp
  also have "\<dots> = length rs"
    unfolding mset_group_records by simp
  finally have e: "sum_list (map (\<lambda>(k, grp). length grp) (group_records rs)) = length rs" .
  from a b c mset_group_records e show ?thesis by blast
qed

theorem group_records_partition_witness:
  "map (\<lambda>(k, grp). (k, length grp)) (group_records scenario) = [((2023, 5, 1), 2), ((2023, 5, 2), 1)] \<and>
   distinct (map fst (group_records scenario)) \<and>
   fst ` set (group_records scenario) = fst ` set scenario \<and>
   mset (concat (map snd (group_records scenario))) = mset scenario \<and>
   sum_list (map (\<lambda>(k, grp). length grp) (group_records scenario)) = length scenario"
proof -
  note p = group_records_partition [of scenario]
  have "map (\<lambda>(k, grp). (k, length grp)) (group_records scenario)
        = [((2023, 5, 1), 2), ((2023, 5, 2), 1)]"
    by code_simp
  moreover note p [THEN conjunct1]
  moreover note p [THEN conjunct2, THEN conjunct1]
  moreover note p [THEN conjunct2, THEN conjunct2, THEN conjunct2, THEN conjunct1]
  moreover note p [THEN conjunct2, THEN conjunct2, THEN conjunct2, THEN conjunct2]
  ultimately show ?thesis by (intro conjI)
qed

section \<open>The verifier\<close>

text \<open>
  Claim C5.  The verification of main succeeds exactly when the two record
  sequences are equal as multisets; its outcome is one truth value.
\<close>

theorem verify_iff_mset:
  fixes records all_retrieved_records :: "('f::linorder) rec list"
  shows "verify records all_retrieved_records \<longleftrightarrow> mset records = mset all_retrieved_records"
proof
  assume "verify records all_retrieved_records"
  then have "mset (sort records) = mset (sort all_retrieved_records)"
    by (simp add: verify_def)
  then show "mset records = mset all_retrieved_records" by simp
next
  assume "mset records = mset all_retrieved_records"
  then have "sort records = sort all_retrieved_records"
    by (intro properties_for_sort) simp_all
  then show "verify records all_retrieved_records" by (simp add: verify_def)
qed

section \<open>The encoder\<close>

lemma date_as_text_eq:
  "valid_date (fst r) \<Longrightarrow> PList ([PStr (isoformat (fst r))] @ tl (as_tuple r)) = date_as_text r"
  by (cases r) (simp add: isoformat_iso_calendar_date del: isoformat.simps iso_calendar_date.simps)

lemma recs_as_str_date_eq:
  "\<forall>r \<in> set recs. valid_date (fst r) \<Longrightarrow>
   map (\<lambda>r. PList ([PStr (isoformat (fst r))] @ tl (as_tuple r))) recs = map date_as_text recs"
  by (rule map_cong) (simp_all add: date_as_text_eq del: append.simps)

lemma wire_value_date_as_text: "wire_value (date_as_text r)"
  by (cases r) simp

lemma contract_serialize:
  assumes "lib_contract L"
  shows "\<exists>js data. json_dumps L (PList (map date_as_text recs)) = Some js \<and>
           json_loads L js = Some (PList (map date_as_text recs)) \<and>
           utf8_encode L js = Some data \<and> utf8_decode L data = Some js \<and>
           serialize L (map date_as_text recs) = Inr data"
proof -
  have "wire_value (PList (map date_as_text recs))"
    by (simp add: list_all_iff wire_value_date_as_text)
  with assms obtain js data where
    "json_dumps L (PList (map date_as_text recs)) = Some js"
    "json_loads L js = Some (PList (map date_as_text recs))"
    "utf8_encode L js = Some data" "utf8_decode L data = Some js"
    unfolding lib_contract_def by blast
  then show ?thesis by (simp add: serialize_def)
qed

lemma compress_group_encode_spec:
  assumes "\<forall>r \<in> set recs. valid_date (fst r)"
  shows "compress_group L (key, recs) =
     (case encode_spec L recs of Inl e \<Rightarrow> Inl e | Inr blob \<Rightarrow> Inr (key, blob))"
  unfolding compress_group_def encode_spec_def serialize_def prod.case Let_def
    recs_as_str_date_eq [OF assms]
  by (simp split: option.splits)

text \<open>
  Claim C7.  On a group of records, with a library that keeps its contract,
  \<open>compress_group\<close> returns the key and the blob of the three steps.  Step 1
  gives every record the ISO 8601 calendar-date text of its date in front of
  its other four fields, unchanged.  Step 2 serialises the rows, in their
  order, as a JSON text from which the parser gets the same rows back, and
  encodes it to bytes.  Step 3 compresses the bytes to a blob from which
  decompression gets the bytes back.
\<close>

theorem compress_group_three_steps:
  assumes "lib_contract L" and "\<forall>r \<in> set recs. valid_date (fst r)"
  shows "\<exists>js data blob.
     json_dumps L (PList (map date_as_text recs)) = Some js \<and>
     json_loads L js = Some (PList (map date_as_text recs)) \<and>
     utf8_encode L js = Some data \<and> utf8_decode L data = Some js \<and>
     blob = zlib_compress L data \<and> zlib_decompress L blob = Some data \<and>
     encode_spec L recs = Inr blob \<and>
     compress_group L (key, recs) = Inr (key, blob)"
proof -
  from contract_serialize [OF assms(1), of recs] obtain js data where
    s: "json_dumps L (PList (map date_as_text recs)) = Some js"
       "json_loads L js = Some (PList (map date_as_text recs))"
       "utf8_encode L js = Some data" "utf8_decode L data = Some js"
       "serialize L (map date_as_text recs) = Inr data"
    by blast
  have z: "zlib_decompress L (zlib_compress L data) = Some data"
    using assms(1) unfolding lib_contract_def by blast
  have e: "encode_spec L recs = Inr (zlib_compress L data)"
    by (simp add: encode_spec_def s(5))
  have c: "compress_group L (key, recs) = Inr (key, zlib_compress L data)"
    unfolding compress_group_encode_spec [OF assms(2)] e by simp
  from s(1-4) z e c show ?thesis by blast
qed

section \<open>Round trip\<close>

lemma reconstruct_date_as_text:
  assumes "lib_contract L" and "valid_date (fst r)"
  shows "reconstruct L (date_as_text r) = Inr (as_tuple r)"
proof -
  obtain d side symbol quantity price where r: "r = (d, side, symbol, quantity, price)"
    by (cases r)
  from assms(1) have "\<forall>d. valid_date d \<longrightarrow> date_fromisoformat L (isoformat d) = Some d"
    unfolding lib_contract_def by blast
  moreover from assms(2) have v: "valid_date d" unfolding r by simp
  ultimately have "date_fromisoformat L (isoformat d) = Some d" by blast
  then have "date_fromisoformat L (iso_calendar_date d) = Some d"
    unfolding isoformat_iso_calendar_date [OF v] .
  then show ?thesis
    unfolding r by (simp del: iso_calendar_date.simps)
qed

lemma for_each_all_Inr:
  "(\<And>x. x \<in> set xs \<Longrightarrow> f x = Inr (g x)) \<Longrightarrow> for_each f xs = Inr (map g xs)"
  by (induction xs) simp_all

lemma for_each_reconstruct_rows:
  "lib_contract L \<Longrightarrow> \<forall>r \<in> set rs. valid_date (fst r) \<Longrightarrow>
   for_each (reconstruct L) (map date_as_text rs) = Inr (map as_tuple rs)"
  by (induction rs) (simp_all add: reconstruct_date_as_text)

lemma compress_group_roundtrip:
  assumes "lib_contract L" and "\<forall>r \<in> set recs. valid_date (fst r)"
  shows "compress_group L (key, recs) = Inr (blob_of L (key, recs))"
    and "fst (blob_of L (key, recs)) = key"
    and "decompress_group L (blob_of L (key, recs)) = Inr (map as_tuple recs)"
proof -
  from contract_serialize [OF assms(1), of recs] obtain js data where
    s: "json_dumps L (PList (map date_as_text recs)) = Some js"
       "json_loads L js = Some (PList (map date_as_text recs))"
       "utf8_encode L js = Some data" "utf8_decode L data = Some js"
       "serialize L (map date_as_text recs) = Inr data"
    by blast
  have z: "zlib_decompress L (zlib_compress L data) = Some data"
    using assms(1) unfolding lib_contract_def by blast
  have c: "compress_group L (key, recs) = Inr (key, zlib_compress L data)"
    unfolding compress_group_encode_spec [OF assms(2)] by (simp add: encode_spec_def s(5))
  then show "compress_group L (key, recs) = Inr (blob_of L (key, recs))"
    and "fst (blob_of L (key, recs)) = key"
    by (simp_all add: blob_of_def)
  show "decompress_group L (blob_of L (key, recs)) = Inr (map as_tuple recs)"
    using s z assms by (simp add: blob_of_def c decompress_group_def for_each_reconstruct_rows)
qed

text \<open>
  Claim C3.  With a library that keeps its contract, \<open>compress_group\<close> returns
  a blob beside the key, and \<open>decompress_group\<close> on that row returns the tuples
  of the input records, element for element, in the same order.
\<close>

theorem decompress_compress_group:
  assumes "lib_contract L" and "\<forall>r \<in> set recs. valid_date (fst r)"
  shows "\<exists>blob. compress_group L (key, recs) = Inr (key, blob) \<and>
           decompress_group L (key, blob) = Inr (map as_tuple recs)"
proof -
  obtain k blob where b: "blob_of L (key, recs) = (k, blob)"
    by (cases "blob_of L (key, recs)")
  with compress_group_roundtrip(2) [OF assms, of key] have "k = key" by simp
  with b compress_group_roundtrip(1,3) [OF assms, of key] show ?thesis by auto
qed

section \<open>The pool\<close>

lemma chunk_size_pos: "0 < n \<Longrightarrow> 0 < chunk_size n processes"
  by (auto simp: chunk_size_def dest: mod_0_imp_dvd dvd_imp_le intro: Suc_leI
      simp add: div_greater_zero_iff)

lemma concat_chunks: "0 < n \<Longrightarrow> concat (chunks n xs) = xs"
proof (induction n xs rule: chunks.induct)
  case (1 n xs)
  then show ?case
    by (subst chunks.simps) auto
qed

lemma chunks_Nil: "chunks n [] = []"
  by (subst chunks.simps) simp

lemma concat_tasks:
  "concat (chunks (chunk_size (length items) processes) items) = items"
  by (cases "items = []") (simp_all add: chunks_Nil concat_chunks chunk_size_pos)

lemma set_tasks:
  "task \<in> set (chunks (chunk_size (length items) processes) items) \<Longrightarrow> set task \<subseteq> set items"
  using concat_tasks [of items processes] by (metis Sup_upper UN_iff set_concat subsetI)

lemma for_each_Inl: "for_each f xs = Inl e \<Longrightarrow> \<exists>x \<in> set xs. f x = Inl e"
  by (induction xs) (auto split: sum.splits)

lemma for_each_fails: "x \<in> set xs \<Longrightarrow> isl (f x) \<Longrightarrow> isl (for_each f xs)"
  by (induction xs) (auto split: sum.splits)

lemma first_failure_None:
  "(\<And>r. r \<in> set results \<Longrightarrow> \<not> isl r) \<Longrightarrow> first_failure completion results = None"
proof -
  assume ok: "\<And>r. r \<in> set results \<Longrightarrow> \<not> isl r"
  have "filter (\<lambda>i. i < length results \<and> isl (results ! i)) (completion @ [0..<length results]) = []"
    unfolding filter_empty_conv using ok by (metis nth_mem)
  then show ?thesis by (simp add: first_failure_def)
qed

lemma first_failure_Some:
  assumes "first_failure completion results = Some e"
  shows "\<exists>r \<in> set results. r = Inl e"
proof -
  from assms obtain i rest where
    f: "filter (\<lambda>i. i < length results \<and> isl (results ! i)) (completion @ [0..<length results]) = i # rest"
    and e: "e = projl (results ! i)"
    by (auto simp: first_failure_def split: list.splits)
  from f have "i \<in> set (filter (\<lambda>i. i < length results \<and> isl (results ! i)) (completion @ [0..<length results]))"
    by simp
  then have "i < length results" "isl (results ! i)" by auto
  with e show ?thesis by (metis nth_mem sum.collapse(1))
qed

lemma first_failure_exists:
  assumes "r \<in> set results" "isl r"
  shows "\<exists>e. first_failure completion results = Some e"
proof -
  from assms(1) obtain i where i: "i < length results" "results ! i = r"
    by (auto simp: in_set_conv_nth)
  with assms(2) have "i \<in> set (filter (\<lambda>i. i < length results \<and> isl (results ! i)) (completion @ [0..<length results]))"
    by simp
  then have "filter (\<lambda>i. i < length results \<and> isl (results ! i)) (completion @ [0..<length results]) \<noteq> []"
    by (metis empty_iff list.set(1))
  then show ?thesis
    by (auto simp: first_failure_def split: list.splits)
qed

lemma pool_map_success:
  assumes "\<And>x. x \<in> set items \<Longrightarrow> f x = Inr (g x)"
  shows "pool_map processes completion f items = Inr (map g items)"
proof -
  define tasks where "tasks = chunks (chunk_size (length items) processes) items"
  have task: "for_each f task = Inr (map g task)" if "task \<in> set tasks" for task
    using set_tasks [of task items processes] that assms
    unfolding tasks_def by (intro for_each_all_Inr) auto
  then have results: "map (for_each f) tasks = map (\<lambda>task. Inr (map g task)) tasks"
    by simp
  have "first_failure completion (map (for_each f) tasks) = None"
    unfolding results by (rule first_failure_None) auto
  moreover have "concat (map projr (map (for_each f) tasks)) = map g (concat tasks)"
    unfolding results by (simp add: map_concat comp_def)
  ultimately show ?thesis
    unfolding pool_map_def Let_def tasks_def [symmetric]
    by (simp add: tasks_def concat_tasks)
qed

lemma pool_map_Inl:
  assumes "pool_map processes completion f items = Inl e"
  shows "\<exists>x \<in> set items. f x = Inl e"
proof -
  define tasks where "tasks = chunks (chunk_size (length items) processes) items"
  from assms have "first_failure completion (map (for_each f) tasks) = Some e"
    unfolding pool_map_def Let_def tasks_def [symmetric] by (simp split: option.splits)
  from first_failure_Some [OF this] obtain task where
    "task \<in> set tasks" "for_each f task = Inl e"
    by auto
  with for_each_Inl [of f task e] set_tasks [of task items processes] show ?thesis
    unfolding tasks_def by blast
qed

lemma pool_map_fails:
  assumes "x \<in> set items" "isl (f x)"
  shows "\<exists>e. pool_map processes completion f items = Inl e"
proof -
  define tasks where "tasks = chunks (chunk_size (length items) processes) items"
  have "concat tasks = items" unfolding tasks_def by (rule concat_tasks)
  with assms(1) obtain task where t: "task \<in> set tasks" "x \<in> set task"
    by (metis UN_E set_concat)
  then have "isl (for_each f task)"
    using assms(2) by (intro for_each_fails)
  with t(1) have "\<exists>e. first_failure completion (map (for_each f) tasks) = Some e"
    by (intro first_failure_exists [of "for_each f task"]) simp_all
  then show ?thesis
    unfolding pool_map_def Let_def tasks_def [symmetric] by auto
qed

text \<open>
  Claim C6, as amended.  Whatever the number of processes and the order in
  which the tasks complete: when the function succeeds on every item,
  \<open>pool_map\<close> returns one result per item, in the order of the items, which
  is the result of applying the function to the items one after the other;
  when the function fails on some item, \<open>pool_map\<close> raises the exception of
  a failing item, and so does the sequential loop.
\<close>

theorem pool_map_sequential:
  "((\<forall>x \<in> set items. \<not> isl (f x)) \<longrightarrow>
      pool_map processes completion f items = for_each f items \<and>
      pool_map processes completion f items = Inr (map (\<lambda>x. projr (f x)) items)) \<and>
   ((\<exists>x \<in> set items. isl (f x)) \<longrightarrow>
      (\<exists>e. pool_map processes completion f items = Inl e \<and> (\<exists>x \<in> set items. f x = Inl e)) \<and>
      (\<exists>e. for_each f items = Inl e \<and> (\<exists>x \<in> set items. f x = Inl e)))"
proof (intro conjI impI)
  assume ok: "\<forall>x \<in> set items. \<not> isl (f x)"
  then have r: "f x = Inr (projr (f x))" if "x \<in> set items" for x
    using that by (cases "f x") auto
  show "pool_map processes completion f items = Inr (map (\<lambda>x. projr (f x)) items)"
    by (rule pool_map_success) (rule r)
  moreover have "for_each f items = Inr (map (\<lambda>x. projr (f x)) items)"
    by (rule for_each_all_Inr) (rule r)
  ultimately show "pool_map processes completion f items = for_each f items"
    by simp
next
  assume "\<exists>x \<in> set items. isl (f x)"
  then obtain x where x: "x \<in> set items" "isl (f x)" by blast
  have "\<exists>e. pool_map processes completion f items = Inl e"
    using x by (rule pool_map_fails)
  then obtain e where "pool_map processes completion f items = Inl e"
    by blast
  with pool_map_Inl [OF this]
  show "\<exists>e. pool_map processes completion f items = Inl e \<and> (\<exists>x \<in> set items. f x = Inl e)"
    by blast
  have "isl (for_each f items)"
    using x by (rule for_each_fails)
  then obtain e' where "for_each f items = Inl e'"
    by (cases "for_each f items") auto
  with for_each_Inl [OF this]
  show "\<exists>e. for_each f items = Inl e \<and> (\<exists>x \<in> set items. f x = Inl e)"
    by blast
qed

section \<open>The pipeline\<close>

lemma mset_concat_map: "mset (concat (map f xs)) = (\<Sum>x\<in>#mset xs. mset (f x))"
  by (induction xs) simp_all

lemma mset_concat_map_cong:
  "mset xs = mset ys \<Longrightarrow> mset (concat (map f xs)) = mset (concat (map f ys))"
  by (simp only: mset_concat_map)

text \<open>
  Claim C1.  With a library that keeps its contract, whatever the number of
  processes and the orders in which the tasks of the two pools complete: the
  write phase of main (grouping, then \<open>compress_group\<close> on every group)
  returns the rows, and the read phase (\<open>decompress_group\<close> on every row,
  then flattening) on these rows, in whatever order the store returns them,
  yields the tuples of the input records as a multiset.
\<close>

theorem pipeline_roundtrip:
  assumes "lib_contract L" and "\<forall>r \<in> set R. valid_date (fst r)"
  shows "\<exists>blobs. write_phase L p1 c1 R = Inr blobs \<and>
           (\<forall>rows. mset rows = mset blobs \<longrightarrow>
              (\<exists>out. read_phase L p2 c2 rows = Inr out \<and> mset out = mset (map as_tuple R)))"
proof -
  let ?groups = "group_records R"
  let ?blobs = "map (blob_of L) ?groups"
  let ?dec = "\<lambda>row. case decompress_group L row of Inr recs \<Rightarrow> recs | Inl e \<Rightarrow> []"
  have valid: "\<forall>r \<in> set (snd g). valid_date (fst r)" if "g \<in> set ?groups" for g
    using that assms(2) by (auto simp: group_records_eq)
  have enc: "compress_group L g = Inr (blob_of L g)" if "g \<in> set ?groups" for g
    using compress_group_roundtrip(1) [OF assms(1) valid [OF that], of "fst g"] by simp
  have dec: "decompress_group L (blob_of L g) = Inr (map as_tuple (snd g))"
    if "g \<in> set ?groups" for g
    using compress_group_roundtrip(3) [OF assms(1) valid [OF that], of "fst g"] by simp
  have w: "write_phase L p1 c1 R = Inr ?blobs"
    unfolding write_phase_def by (rule pool_map_success) (rule enc)
  have r: "\<exists>out. read_phase L p2 c2 rows = Inr out \<and> mset out = mset (map as_tuple R)"
    if perm: "mset rows = mset ?blobs" for rows
  proof -
    have "set rows = set ?blobs"
      using perm by (rule mset_eq_setD)
    then have ok: "decompress_group L row = Inr (?dec row)" if "row \<in> set rows" for row
      using that dec by auto
    have "pool_map p2 c2 (decompress_group L) rows = Inr (map ?dec rows)"
      by (rule pool_map_success) (rule ok)
    then have out: "read_phase L p2 c2 rows = Inr (concat (map ?dec rows))"
      by (simp add: read_phase_def)
    have "mset (concat (map ?dec rows)) = mset (concat (map ?dec ?blobs))"
      using perm by (rule mset_concat_map_cong)
    also have "map ?dec ?blobs = map (\<lambda>g. map as_tuple (snd g)) ?groups"
      by (simp add: dec)
    also have "mset (concat (map (\<lambda>g. map as_tuple (snd g)) ?groups))
               = mset (map as_tuple (concat (map snd ?groups)))"
      by (simp add: map_concat comp_def)
    also have "\<dots> = mset (map as_tuple R)"
      using mset_group_records [of R] by simp
    finally show ?thesis using out by blast
  qed
  from w r show ?thesis by blast
qed

section \<open>The empty input\<close>

text \<open>
  Claim C8.  On no records the grouping loop returns no group; the write phase
  and the read phase over no items succeed with the empty list, whatever the
  number of processes and the completion order; the verification of the empty
  sequence against the empty sequence passes.
\<close>

theorem empty_input:
  "group_records ([] :: 'f rec list) = [] \<and>
   write_phase L p1 c1 ([] :: 'f rec list) = Inr [] \<and>
   read_phase L p2 c2 [] = Inr [] \<and>
   verify ([] :: ('g::linorder) rec list) []"
  by (simp add: group_records_def write_phase_def read_phase_def pool_map_def chunks_Nil
      first_failure_def verify_def)

section \<open>The sample library keeps the contract\<close>

subsection \<open>Numbers\<close>

lemma digits_val_snoc: "digits_val (xs @ [c]) = 10 * digits_val xs + digit_val c"
  by (simp add: digits_val_def)

lemma show_nat_nonempty: "show_nat n \<noteq> []"
  by (induction n rule: show_nat.induct) (subst show_nat.simps, simp)

lemma show_nat_digits: "list_all is_digit (show_nat n)"
  by (induction n rule: show_nat.induct) (subst show_nat.simps, simp)

lemma digits_val_show_nat: "digits_val (show_nat n) = n"
proof (induction n rule: show_nat.induct)
  case (1 n)
  show ?case
  proof (cases "n < 10")
    case True
    then show ?thesis
      by (subst show_nat.simps) (simp add: digits_val_def)
  next
    case False
    with 1 have "digits_val (show_nat (n div 10)) = n div 10" by simp
    with False show ?thesis
      by (subst show_nat.simps) (simp add: digits_val_snoc)
  qed
qed

lemma digit_char_zero_iff: "digit_char n = CHR ''0'' \<longleftrightarrow> n mod 10 = 0"
proof -
  have "digit_val (digit_char n) = n mod 10" by simp
  moreover have "digit_val (CHR ''0'') = 0" by (simp add: digit_val_def)
  moreover have "digit_char 0 = CHR ''0''" by code_simp
  moreover have "digit_char n = digit_char (n mod 10)" by (simp add: digit_char_def)
  ultimately show ?thesis by metis
qed

lemma hd_show_nat: "hd (show_nat n) = CHR ''0'' \<longleftrightarrow> n = 0"
proof (induction n rule: show_nat.induct)
  case (1 n)
  show ?case
  proof (cases "n < 10")
    case True
    then show ?thesis
      by (subst show_nat.simps) (simp add: digit_char_zero_iff)
  next
    case False
    with 1 have "hd (show_nat (n div 10)) = CHR ''0'' \<longleftrightarrow> n div 10 = 0" by simp
    moreover from False have "n div 10 \<noteq> 0" "n \<noteq> 0" by auto
    ultimately show ?thesis
      using False by (subst show_nat.simps) (simp add: show_nat_nonempty)
  qed
qed

lemma takeWhile_digits:
  "list_all is_digit ds \<Longrightarrow> (rest = [] \<or> \<not> is_digit (hd rest)) \<Longrightarrow>
   takeWhile is_digit (ds @ rest) = ds \<and> dropWhile is_digit (ds @ rest) = rest"
  by (induction ds) (cases rest; simp)+

lemma terminated_not_digit: "terminated rest \<Longrightarrow> rest = [] \<or> \<not> is_digit (hd rest)"
  by (cases rest) (auto simp: terminated_def is_digit_def)

lemma terminated_no_exponent: "terminated rest \<Longrightarrow> scan_exponent rest = None"
  by (cases rest) (auto simp: terminated_def scan_exponent_def)

lemma terminated_no_frac: "terminated rest \<Longrightarrow> frac_part rest = []"
  by (cases rest) (auto simp: terminated_def frac_part_def)

lemma hd_show_nat_digit: "is_digit (hd (show_nat n))"
  using show_nat_digits [of n] show_nat_nonempty [of n]
  by (cases "show_nat n") simp_all

lemma not_digit_minus: "\<not> is_digit (CHR ''-'')" and not_digit_dot: "\<not> is_digit (CHR ''.'')"
  by (simp_all add: is_digit_def)

lemma hd_show_nat_not_minus: "hd (show_nat n) \<noteq> CHR ''-''"
  using hd_show_nat_digit [of n] not_digit_minus by metis

lemma int_part_show_nat: "int_part (show_nat n) = show_nat n"
proof (cases "n = 0")
  case True
  have "show_nat 0 = [CHR ''0'']" by code_simp
  with True show ?thesis by (simp add: int_part_def)
next
  case False
  then show ?thesis by (simp add: int_part_def hd_show_nat)
qed

lemma scan_unsigned:
  assumes "terminated rest"
  shows "takeWhile is_digit (show_nat n @ rest) = show_nat n"
  using takeWhile_digits [OF show_nat_digits terminated_not_digit [OF assms]] by simp

lemma scan_number_show_nat:
  assumes "terminated rest"
  shows "scan_number (show_nat n @ rest) = Some (PInt (int n), rest)"
proof -
  have 1: "show_nat n @ rest \<noteq> []" "hd (show_nat n @ rest) \<noteq> CHR ''-''"
    using show_nat_nonempty [of n] hd_show_nat_not_minus [of n] by simp_all
  show ?thesis
    unfolding scan_number_def Let_def
    using 1 show_nat_nonempty [of n]
    by (simp add: scan_unsigned [OF assms] int_part_show_nat terminated_no_frac [OF assms]
        terminated_no_exponent [OF assms] digits_val_show_nat)
qed

lemma scan_number_show_neg:
  assumes "terminated rest"
  shows "scan_number (CHR ''-'' # show_nat n @ rest) = Some (PInt (- int n), rest)"
  unfolding scan_number_def Let_def
  using show_nat_nonempty [of n]
  by (simp add: scan_unsigned [OF assms] int_part_show_nat terminated_no_frac [OF assms]
      terminated_no_exponent [OF assms] digits_val_show_nat)

lemma scan_number_show_int:
  assumes "terminated rest"
  shows "scan_number (show_int i @ rest) = Some (PInt i, rest)"
proof (cases "i < 0")
  case True
  then show ?thesis
    using scan_number_show_neg [OF assms, of "nat (- i)"] by (simp add: show_int_def)
next
  case False
  then show ?thesis
    using scan_number_show_nat [OF assms, of "nat i"] by (simp add: show_int_def)
qed

lemma digits_val_frac:
  assumes "f < 100"
  shows "digits_val (xs @ frac_digits f @ replicate (2 - length (frac_digits f)) (CHR ''0''))
         = 100 * digits_val xs + f"
proof -
  have z: "digit_val (CHR ''0'') = 0" by (simp add: digit_val_def)
  have two: "digits_val (xs @ [c1, c2]) = 100 * digits_val xs + 10 * digit_val c1 + digit_val c2"
    for c1 c2
    using digits_val_snoc [of "xs @ [c1]" c2] digits_val_snoc [of xs c1] by simp
  have d: "f div 10 mod 10 = f div 10"
    using assms by (simp add: div_less_iff_less_mult)
  show ?thesis
  proof (cases "f mod 10 = 0")
    case True
    then have "10 * (f div 10) = f" by (metis mult_div_mod_eq add.right_neutral)
    with True show ?thesis
      by (simp add: frac_digits_def two z d)
  next
    case False
    have "10 * (f div 10) + f mod 10 = f" by simp
    with False show ?thesis
      by (simp add: frac_digits_def two d)
  qed
qed

lemma frac_digits_props:
  "list_all is_digit (frac_digits f)" "frac_digits f \<noteq> []" "length (frac_digits f) \<le> 2"
  by (simp_all add: frac_digits_def)

lemma price_of_frac_digits:
  "price_of neg (show_nat (a div 100)) (frac_digits (a mod 100)) = Some (if neg then - int a else int a)"
proof -
  have "digits_val (show_nat (a div 100) @ frac_digits (a mod 100)
          @ replicate (2 - length (frac_digits (a mod 100))) (CHR ''0'')) = a"
    by (simp add: digits_val_frac digits_val_show_nat)
  then show ?thesis
    by (simp add: price_of_def frac_digits_props Let_def)
qed

lemma scan_fraction:
  assumes "terminated rest"
  shows "takeWhile is_digit (show_nat n @ CHR ''.'' # frac_digits f @ rest) = show_nat n"
    and "frac_part (CHR ''.'' # frac_digits f @ rest) = frac_digits f"
proof -
  show "takeWhile is_digit (show_nat n @ CHR ''.'' # frac_digits f @ rest) = show_nat n"
    using takeWhile_digits [OF show_nat_digits, of "CHR ''.'' # frac_digits f @ rest" n]
    by (simp add: not_digit_dot)
  show "frac_part (CHR ''.'' # frac_digits f @ rest) = frac_digits f"
    using takeWhile_digits [OF frac_digits_props(1) terminated_not_digit [OF assms], of f]
    by (simp add: frac_part_def)
qed

lemma scan_number_show_price:
  assumes "terminated rest"
  shows "scan_number (show_price h @ rest) = Some (PFloat h, rest)"
proof (cases "h < 0")
  case True
  then have h: "- int (nat \<bar>h\<bar>) = h" by simp
  show ?thesis
    unfolding scan_number_def Let_def show_price_def
    using True show_nat_nonempty [of "nat \<bar>h\<bar> div 100"]
    by (simp add: scan_fraction [OF assms] int_part_show_nat frac_digits_props
        terminated_no_exponent [OF assms] price_of_frac_digits del: of_nat_div)
next
  case False
  then have h: "int (nat \<bar>h\<bar>) = h" by simp
  have 1: "hd (show_nat n @ xs) \<noteq> CHR ''-''" for n xs
    using show_nat_nonempty [of n] hd_show_nat_not_minus [of n] by simp
  show ?thesis
    unfolding scan_number_def Let_def show_price_def
    using False show_nat_nonempty [of "nat \<bar>h\<bar> div 100"]
    by (simp add: 1 hd_show_nat_not_minus scan_fraction [OF assms] int_part_show_nat frac_digits_props
        terminated_no_exponent [OF assms] price_of_frac_digits del: of_nat_div)
qed

subsection \<open>Strings\<close>

lemma hex_val_hex_char: "hex_val (hex_char k) = Some (k mod 16)"
proof -
  have "k mod 16 < 16" by simp
  then show ?thesis
    by (auto simp: hex_val_def hex_char_def Let_def)
qed

lemma hex_val_zero: "hex_val (CHR ''0'') = Some 0"
  by (simp add: hex_val_def)

lemma char_of_hex_digits: "char_of (16 * ((of_char c :: nat) div 16 mod 16) + of_char c mod 16) = c"
proof -
  have "(of_char c :: nat) div 16 < 16"
    using nat_of_char_less_256 [of c] by (simp add: div_less_iff_less_mult)
  then have "16 * ((of_char c :: nat) div 16 mod 16) + of_char c mod 16 = of_char c"
    by simp
  then show ?thesis by simp
qed

lemma scan_string_escape_u:
  "scan_string (CHR 0x5C # CHR ''u'' # CHR ''0'' # CHR ''0'' # hex_char (of_char c div 16) # hex_char (of_char c) # r)
   = push c (scan_string r)"
  by (simp add: hex_val_hex_char hex_val_zero char_of_hex_digits)

lemma scan_string_escape_char:
  "scan_string (escape_char c @ r) = push c (scan_string r)"
proof -
  let ?special = "c = CHR 0x22 \<or> c = CHR 0x5C \<or> c = CHR 0x0A \<or> c = CHR 0x0D \<or>
      c = CHR 0x09 \<or> c = CHR 0x08 \<or> c = CHR 0x0C"
  let ?wide = "(of_char c :: nat) < 32 \<or> 126 < (of_char c :: nat)"
  have a: ?thesis if "c = CHR 0x22" using that by (simp add: escape_char_def unescape_def)
  have b: ?thesis if "c = CHR 0x5C" using that by (simp add: escape_char_def unescape_def)
  have c: ?thesis if "c = CHR 0x0A" using that by (simp add: escape_char_def unescape_def)
  have d: ?thesis if "c = CHR 0x0D" using that by (simp add: escape_char_def unescape_def)
  have e: ?thesis if "c = CHR 0x09" using that by (simp add: escape_char_def unescape_def)
  have f: ?thesis if "c = CHR 0x08" using that by (simp add: escape_char_def unescape_def)
  have g: ?thesis if "c = CHR 0x0C" using that by (simp add: escape_char_def unescape_def)
  have u: ?thesis if "\<not> ?special" "?wide"
  proof -
    from that have "escape_char c = [CHR 0x5C, CHR ''u'', CHR ''0'', CHR ''0'',
        hex_char (of_char c div 16), hex_char (of_char c)]"
      by (simp add: escape_char_def)
    then show ?thesis
      by (simp only: append_Cons append_Nil scan_string_escape_u)
  qed
  have p: ?thesis if "\<not> ?special" "\<not> ?wide"
  proof -
    from that have "escape_char c = [c]"
      by (simp add: escape_char_def)
    with that show ?thesis by simp
  qed
  from a b c d e f g u p show ?thesis by blast
qed

lemma scan_string_escaped:
  "scan_string (concat (map escape_char s) @ CHR 0x22 # rest) = Some (s, rest)"
proof (induction s)
  case Nil
  then show ?case by simp
next
  case (Cons c s)
  have "scan_string (concat (map escape_char (c # s)) @ CHR 0x22 # rest)
        = scan_string (escape_char c @ (concat (map escape_char s) @ CHR 0x22 # rest))"
    by simp
  also have "\<dots> = push c (scan_string (concat (map escape_char s) @ CHR 0x22 # rest))"
    by (rule scan_string_escape_char)
  finally show ?case by (simp add: Cons push_def)
qed

subsection \<open>Values\<close>

lemma those_map_Some:
  "(\<And>x. x \<in> set xs \<Longrightarrow> f x = Some (g x)) \<Longrightarrow> those (map f xs) = Some (map g xs)"
  by (induction xs) simp_all

lemma dumps_render: "wire_value v \<Longrightarrow> dumps v = Some (render v)"
proof (induction v)
  case (PList vs)
  then have "those (map dumps vs) = Some (map render vs)"
    by (intro those_map_Some) (simp add: list_all_iff)
  then show ?case by simp
qed simp_all

lemma hd_show_int: "show_int i \<noteq> [] \<and> value_start (hd (show_int i))"
  using show_nat_nonempty hd_show_nat_digit
  by (simp add: show_int_def value_start_def)

lemma hd_show_price: "show_price h \<noteq> [] \<and> value_start (hd (show_price h))"
  using show_nat_nonempty hd_show_nat_digit
  by (simp add: show_price_def value_start_def Let_def)

lemma render_start: "wire_value v \<Longrightarrow> render v \<noteq> [] \<and> value_start (hd (render v))"
proof (cases v)
  case (PInt i)
  then show ?thesis by (simp add: hd_show_int)
next
  case (PFloat h)
  then show ?thesis by (simp add: hd_show_price)
next
  case (PStr s)
  then show ?thesis by (simp add: show_str_def value_start_def)
next
  case (PList vs)
  then show ?thesis by (simp add: value_start_def)
qed simp_all

lemma value_start_not_ws: "value_start c \<Longrightarrow> \<not> is_ws c"
  by (auto simp: value_start_def is_ws_def is_digit_def)

lemma value_start_not_close: "value_start c \<Longrightarrow> c \<noteq> CHR '']''"
  by (auto simp: value_start_def is_digit_def)

lemma skip_ws_start: "s \<noteq> [] \<Longrightarrow> value_start (hd s) \<Longrightarrow> skip_ws (s @ r) = s @ r"
  by (cases s) (simp_all add: skip_ws_def value_start_not_ws)

lemma parse_value_number:
  assumes "s \<noteq> []" "is_digit (hd s) \<or> hd s = CHR ''-''"
  shows "parse_value (Suc n) (s @ r) = scan_number (s @ r)"
proof -
  obtain c s' where s: "s = c # s'" using assms(1) by (cases s) auto
  with assms(2) have c: "is_digit c \<or> c = CHR ''-''" by simp
  then have "c \<noteq> CHR 0x22" "c \<noteq> CHR ''[''" "c \<noteq> CHR ''{''" "c \<noteq> CHR ''n''"
    "c \<noteq> CHR ''t''" "c \<noteq> CHR ''f''"
    by (auto simp: is_digit_def)
  then show ?thesis
    unfolding s by (cases s'; cases r) (auto simp: take_Cons' split: list.splits)
qed

lemma terminated_simps:
  "terminated []" "terminated (CHR '','' # r)" "terminated (CHR '']'' # r)"
  by (simp_all add: terminated_def)

lemma parse_items_render:
  assumes ih: "\<And>v n rest. v \<in> set vs \<Longrightarrow> terminated rest \<Longrightarrow> fuel_of v \<le> n \<Longrightarrow>
                 parse_value n (render v @ rest) = Some (v, rest)"
    and wire: "list_all wire_value vs" and ne: "vs \<noteq> []"
    and fuel: "sum_list (map (\<lambda>v. Suc (fuel_of v)) vs) \<le> n"
  shows "parse_items n (join '', '' (map render vs) @ CHR '']'' # rest) = Some (vs, rest)"
  using ih wire ne fuel
proof (induction vs arbitrary: n)
  case Nil
  then show ?case by simp
next
  case (Cons v vs)
  from Cons.prems(4) obtain m where n: "n = Suc m" and m: "fuel_of v \<le> m"
    and ms: "sum_list (map (\<lambda>v. Suc (fuel_of v)) vs) \<le> m"
    by (cases n) auto
  show ?case
  proof (cases vs)
    case Nil
    have "parse_value m (render v @ CHR '']'' # rest) = Some (v, CHR '']'' # rest)"
      using Cons.prems(1) [of v "CHR '']'' # rest" m] m by (simp add: terminated_simps)
    then show ?thesis
      unfolding n Nil by (simp add: skip_ws_def is_ws_def)
  next
    case (Cons w ws)
    define tail where "tail = join '', '' (map render (w # ws)) @ CHR '']'' # rest"
    have tail: "parse_items m tail = Some (w # ws, rest)"
      using Cons.IH [of m] Cons.prems(1,2) ms unfolding Cons tail_def by simp
    have "wire_value w" using Cons.prems(2) unfolding Cons by simp
    from render_start [OF this] have skip: "skip_ws tail = tail"
      unfolding tail_def by (cases ws) (simp_all add: skip_ws_start)
    have head: "parse_value m (render v @ CHR '','' # CHR 0x20 # tail)
                = Some (v, CHR '','' # CHR 0x20 # tail)"
      using Cons.prems(1) [of v "CHR '','' # CHR 0x20 # tail" m] m by (simp add: terminated_simps)
    have sp: "skip_ws (CHR 0x20 # tail) = tail"
      using skip by (simp add: skip_ws_def is_ws_def)
    have c: "skip_ws (CHR '','' # CHR 0x20 # tail) = CHR '','' # CHR 0x20 # tail"
      by (simp add: skip_ws_def is_ws_def)
    have "parse_items (Suc m) (render v @ CHR '','' # CHR 0x20 # tail) = Some (v # w # ws, rest)"
      by (simp add: head c sp tail)
    moreover have "join '', '' (map render (v # vs)) @ CHR '']'' # rest
                   = render v @ CHR '','' # CHR 0x20 # tail"
      unfolding Cons tail_def by simp
    ultimately show ?thesis
      unfolding n by (simp only: Cons)
  qed
qed

lemma parse_value_render:
  "wire_value v \<Longrightarrow> terminated rest \<Longrightarrow> fuel_of v \<le> n \<Longrightarrow>
   parse_value n (render v @ rest) = Some (v, rest)"
proof (induction v arbitrary: n rest)
  case (PInt i)
  then obtain m where n: "n = Suc m" by (cases n) auto
  have "is_digit (hd (show_int i)) \<or> hd (show_int i) = CHR ''-''"
    using hd_show_nat_digit show_nat_nonempty by (simp add: show_int_def)
  with hd_show_int [of i] have "parse_value (Suc m) (show_int i @ rest) = scan_number (show_int i @ rest)"
    by (intro parse_value_number) simp_all
  with PInt(2) show ?case
    unfolding n by (simp add: scan_number_show_int)
next
  case (PFloat h)
  then obtain m where n: "n = Suc m" by (cases n) auto
  have "is_digit (hd (show_price h)) \<or> hd (show_price h) = CHR ''-''"
    using hd_show_nat_digit show_nat_nonempty by (simp add: show_price_def Let_def)
  with hd_show_price [of h] have "parse_value (Suc m) (show_price h @ rest) = scan_number (show_price h @ rest)"
    by (intro parse_value_number) simp_all
  with PFloat(2) show ?case
    unfolding n by (simp add: scan_number_show_price)
next
  case (PStr s)
  then obtain m where n: "n = Suc m" by (cases n) auto
  show ?case
    unfolding n by (simp add: show_str_def scan_string_escaped)
next
  case (PList vs)
  from PList.prems(3) obtain m where n: "n = Suc m"
    and m: "sum_list (map (\<lambda>v. Suc (fuel_of v)) vs) \<le> m"
    by (cases n) auto
  show ?case
  proof (cases vs)
    case Nil
    then show ?thesis
      unfolding n by (simp add: skip_ws_def is_ws_def)
  next
    case (Cons w ws)
    let ?items = "join '', '' (map render vs) @ CHR '']'' # rest"
    have wire: "list_all wire_value vs" using PList.prems(1) by simp
    then have "wire_value w" unfolding Cons by simp
    from render_start [OF this] have start: "render w \<noteq> []" "value_start (hd (render w))"
      by simp_all
    obtain c r where items: "?items = c # r" and c: "value_start c"
      using start unfolding Cons by (cases "render w"; cases ws) auto
    have skip: "skip_ws ?items = ?items"
      unfolding items using c by (simp add: skip_ws_def value_start_not_ws)
    have "parse_items m ?items = Some (vs, rest)"
    proof (rule parse_items_render)
      show "parse_value k (render v @ rest') = Some (v, rest')"
        if "v \<in> set vs" "terminated rest'" "fuel_of v \<le> k" for v k rest'
        using PList.IH [OF that(1) _ that(2,3)] that(1) wire by (simp add: list_all_iff)
    qed (use wire Cons m in simp_all)
    then have "parse_value (Suc m) (CHR ''['' # ?items) = Some (PList vs, rest)"
      using skip c by (simp add: items value_start_not_close)
    then show ?thesis
      unfolding n by simp
  qed
qed simp_all

lemma fuel_of_le_length: "wire_value v \<Longrightarrow> fuel_of v \<le> length (render v)"
proof (induction v)
  case (PList vs)
  have "sum_list (map (\<lambda>v. Suc (fuel_of v)) ws) \<le> Suc (length (join '', '' (map render ws)))"
    if "set ws \<subseteq> set vs" for ws
    using that
  proof (induction ws rule: induct_list012)
    case 1
    then show ?case by simp
  next
    case (2 w)
    then show ?case using PList by (simp add: list_all_iff)
  next
    case (3 w w' ws)
    then have "fuel_of w \<le> length (render w)"
      using PList by (simp add: list_all_iff)
    with 3 show ?case by simp
  qed
  from this [of vs] show ?case by simp
next
  case (PInt i)
  then show ?case using hd_show_int [of i] by (cases "show_int i") simp_all
next
  case (PFloat h)
  then show ?case using hd_show_price [of h] by (cases "show_price h") simp_all
next
  case (PStr s)
  then show ?case by (simp add: show_str_def)
qed simp_all

lemma loads_dumps:
  assumes "wire_value v"
  shows "\<exists>t. dumps v = Some t \<and> loads t = Some v"
proof -
  have s: "skip_ws (render v) = render v"
    using render_start [OF assms] skip_ws_start [of "render v" "[]"] by simp
  have "parse_value (Suc (length (render v))) (render v @ []) = Some (v, [])"
    using assms fuel_of_le_length [OF assms]
    by (intro parse_value_render) (simp_all add: terminated_simps)
  then have p: "parse_value (Suc (length (render v))) (render v) = Some (v, [])"
    by (simp only: append_Nil2)
  have "loads (render v) = Some v"
    unfolding loads_def s p by (simp add: skip_ws_def)
  with dumps_render [OF assms] show ?thesis by simp
qed

subsection \<open>Bytes\<close>

lemma le16_val:
  assumes "n \<le> 65535"
  shows "unat (le16 n ! 0) + 256 * unat (le16 n ! 1) = n"
proof -
  have "n div 256 < 256" using assms by (simp add: div_less_iff_less_mult)
  then have "unat (of_nat (n div 256) :: byte) = n div 256"
    by (simp add: unat_of_nat)
  moreover have "unat (of_nat n :: byte) = n mod 256"
    by (simp add: unat_of_nat)
  ultimately show ?thesis
    by (simp add: le16_def)
qed

lemma stored_block_shape:
  "stored_block final chunk @ tail =
     (if final then 1 else 0) # le16 (length chunk) ! 0 # le16 (length chunk) ! 1 #
     le16 (65535 - length chunk) ! 0 # le16 (65535 - length chunk) ! 1 # (chunk @ tail)"
  by (simp add: stored_block_def le16_def)

lemma inflate_blocks_shape:
  assumes "unat hdr div 2 mod 4 = 0"
    and "unat l0 + 256 * unat l1 = length chunk"
    and "unat n0 + 256 * unat n1 = 65535 - length chunk"
    and "length chunk \<le> 65535"
  shows "inflate_blocks (hdr # l0 # l1 # n0 # n1 # (chunk @ tail)) =
     (if unat hdr mod 2 = 1 then Some (chunk, tail)
      else (case inflate_blocks tail of
              None \<Rightarrow> None
            | Some (out, rest') \<Rightarrow> Some (chunk @ out, rest')))"
  by (subst inflate_blocks.simps) (use assms in \<open>simp add: Let_def split: option.splits\<close>)

lemma inflate_block:
  assumes "length chunk \<le> 65535"
  shows "inflate_blocks (stored_block final chunk @ tail) =
     (if final then Some (chunk, tail)
      else (case inflate_blocks tail of
              None \<Rightarrow> None
            | Some (out, rest') \<Rightarrow> Some (chunk @ out, rest')))"
proof -
  have n: "65535 - length chunk \<le> 65535" by simp
  have h: "unat (if final then 1 else 0 :: byte) div 2 mod 4 = 0"
    "unat (if final then 1 else 0 :: byte) mod 2 = 1 \<longleftrightarrow> final"
    by simp_all
  show ?thesis
    unfolding stored_block_shape
    by (subst inflate_blocks_shape [OF h(1) le16_val [OF assms] le16_val [OF n] assms])
      (simp only: h(2))
qed

lemma inflate_stored_blocks: "inflate_blocks (stored_blocks data @ tail) = Some (data, tail)"
proof (induction data arbitrary: tail rule: stored_blocks.induct)
  case (1 data)
  show ?case
  proof (cases "length data \<le> 65535")
    case True
    then show ?thesis
      by (subst stored_blocks.simps) (simp add: inflate_block)
  next
    case False
    with 1 have ih: "inflate_blocks (stored_blocks (drop 65535 data) @ tail)
        = Some (drop 65535 data, tail)"
      by simp
    have short: "length (take 65535 data) \<le> 65535" by simp
    have "inflate_blocks (stored_block False (take 65535 data) @ (stored_blocks (drop 65535 data) @ tail))
          = Some (take 65535 data @ drop 65535 data, tail)"
      unfolding inflate_block [OF short] ih by simp
    with False show ?thesis
      by (subst stored_blocks.simps) simp
  qed
qed

lemma inflate_deflate: "inflate (deflate_stored data) = Some data"
  by (simp add: inflate_def deflate_stored_def inflate_stored_blocks be32_def)

lemma unat_byte: "n < 256 \<Longrightarrow> unat (of_nat n :: byte) = n"
  by (simp add: unat_of_nat)

lemma utf8_dec_ascii:
  assumes "(of_char c :: nat) < 128"
  shows "utf8_dec (utf8_char c @ bs) = map_option (\<lambda>s. c # s) (utf8_dec bs)"
proof -
  have "unat (of_nat (of_char c) :: byte) = of_char c"
    by (rule unat_byte) simp
  with assms show ?thesis
    by (simp add: utf8_char_def)
qed

lemma utf8_dec_two:
  assumes "\<not> (of_char c :: nat) < 128"
  shows "utf8_dec (utf8_char c @ bs) = map_option (\<lambda>s. c # s) (utf8_dec bs)"
proof -
  define n where "n = (of_char c :: nat)"
  have n: "n < 256" "128 \<le> n" using assms by (simp_all add: n_def)
  have "128 div 64 \<le> n div 64" using n(2) by (rule div_le_mono)
  then have lo: "2 \<le> n div 64" by simp
  have hi: "n div 64 < 4" using n(1) by (simp add: div_less_iff_less_mult)
  from lo hi have d: "n div 64 = 2 \<or> n div 64 = 3" by linarith
  have lead: "unat (of_nat (192 + n div 64) :: byte) = 192 + n div 64"
    using hi by (intro unat_byte) simp
  have cont: "unat (of_nat (128 + n mod 64) :: byte) = 128 + n mod 64"
    by (intro unat_byte) simp
  have orig: "char_of n = c" by (simp add: n_def)
  have enc: "utf8_char c = [of_nat (192 + n div 64), of_nat (128 + n mod 64)]"
    using assms unfolding utf8_char_def Let_def n_def by (simp only: if_False)
  show ?thesis
    unfolding enc
    by (simp only: append_Cons append_Nil utf8_dec.simps lead cont list.case)
      (use d in \<open>auto simp: orig\<close>)
qed

lemma utf8_dec_enc: "utf8_dec (concat (map utf8_char s)) = Some s"
proof (induction s)
  case Nil
  then show ?case by simp
next
  case (Cons c s)
  have "utf8_dec (utf8_char c @ concat (map utf8_char s)) = Some (c # s)"
    using utf8_dec_ascii [of c] utf8_dec_two [of c] Cons by (cases "(of_char c :: nat) < 128") simp_all
  then show ?case by simp
qed

lemma sample_lib_contract: "lib_contract sample_lib"
  unfolding lib_contract_def
proof (intro conjI allI impI)
  fix b
  show "zlib_decompress sample_lib (zlib_compress sample_lib b) = Some b"
    by (simp add: sample_lib_def inflate_deflate)
next
  fix v :: "int pyval"
  assume "wire_value v"
  then obtain t where t: "dumps v = Some t" "loads t = Some v"
    using loads_dumps by blast
  then show "\<exists>js data. json_dumps sample_lib v = Some js \<and> json_loads sample_lib js = Some v \<and>
      utf8_encode sample_lib js = Some data \<and> utf8_decode sample_lib data = Some js"
    by (simp add: sample_lib_def utf8_enc_def utf8_dec_enc)
next
  fix d
  assume "valid_date d"
  then have "fromisoformat_strict (isoformat d) = Some d"
    by (simp only: isoformat_iso_calendar_date fromisoformat_strict_iso)
  then show "date_fromisoformat sample_lib (isoformat d) = Some d"
    by (simp add: sample_lib_def)
qed

section \<open>The program on the sample library\<close>

lemma scenario_valid: "\<forall>r \<in> set scenario. valid_date (fst r)"
  by code_simp

lemma scenario_tuples:
  "map as_tuple scenario =
     [[PDate (2023, 5, 1), PStr ''BUY'', PStr ''ABCD'', PInt 100, PFloat 1234],
      [PDate (2023, 5, 1), PStr ''SELL'', PStr ''WXYZ'', PInt 50, PFloat 9999],
      [PDate (2023, 5, 2), PStr ''BUY'', PStr ''ABCD'', PInt 10, PFloat 500]]"
  by code_simp

lemma leaves:
  "show_int 100 = ''100''" "show_int 50 = ''50''" "show_int 10 = ''10''"
  "show_price 1234 = ''12.34''" "show_price 9999 = ''99.99''" "show_price 500 = ''5.0''"
  "iso_calendar_date (2023, 5, 1) = ''2023-05-01''"
  "iso_calendar_date (2023, 5, 2) = ''2023-05-02''"
  "show_str ''BUY'' = [CHR 0x22] @ ''BUY'' @ [CHR 0x22]"
  "show_str ''SELL'' = [CHR 0x22] @ ''SELL'' @ [CHR 0x22]"
  "show_str ''ABCD'' = [CHR 0x22] @ ''ABCD'' @ [CHR 0x22]"
  "show_str ''WXYZ'' = [CHR 0x22] @ ''WXYZ'' @ [CHR 0x22]"
  "show_str ''2023-05-01'' = [CHR 0x22] @ ''2023-05-01'' @ [CHR 0x22]"
  "show_str ''2023-05-02'' = [CHR 0x22] @ ''2023-05-02'' @ [CHR 0x22]"
  by code_simp+

lemma scenario_rows:
  "map date_as_text scenario =
     [PList [PStr ''2023-05-01'', PStr ''BUY'', PStr ''ABCD'', PInt 100, PFloat 1234],
      PList [PStr ''2023-05-01'', PStr ''SELL'', PStr ''WXYZ'', PInt 50, PFloat 9999],
      PList [PStr ''2023-05-02'', PStr ''BUY'', PStr ''ABCD'', PInt 10, PFloat 500]]"
  unfolding scenario_def by (simp only: list.map date_as_text.simps leaves)

lemma scenario_render: "render (PList (map date_as_text scenario)) = scenario_text"
  unfolding scenario_rows scenario_text_def
  by (simp only: render.simps list.map join.simps leaves append_Cons append_Nil append_assoc)

lemma scenario_dumps: "json_dumps sample_lib (PList (map date_as_text scenario)) = Some scenario_text"
proof -
  have "wire_value (PList (map date_as_text scenario))"
    by (simp add: list_all_iff wire_value_date_as_text)
  from dumps_render [OF this] show ?thesis
    by (simp only: scenario_render sample_lib_def pylib.simps)
qed

theorem compress_group_three_steps_witness:
  "lib_contract sample_lib \<and>
   (\<exists>data blob.
      json_dumps sample_lib (PList (map date_as_text scenario)) = Some scenario_text \<and>
      json_loads sample_lib scenario_text =
        Some (PList
          [PList [PStr ''2023-05-01'', PStr ''BUY'', PStr ''ABCD'', PInt 100, PFloat 1234],
           PList [PStr ''2023-05-01'', PStr ''SELL'', PStr ''WXYZ'', PInt 50, PFloat 9999],
           PList [PStr ''2023-05-02'', PStr ''BUY'', PStr ''ABCD'', PInt 10, PFloat 500]]) \<and>
      utf8_encode sample_lib scenario_text = Some data \<and>
      utf8_decode sample_lib data = Some scenario_text \<and>
      blob = zlib_compress sample_lib data \<and> zlib_decompress sample_lib blob = Some data \<and>
      encode_spec sample_lib scenario = Inr blob \<and>
      compress_group sample_lib ((2023, 5, 1), scenario) = Inr ((2023, 5, 1), blob))"
proof -
  from compress_group_three_steps [OF sample_lib_contract scenario_valid, of "(2023, 5, 1)"]
  obtain js data blob where
    s: "json_dumps sample_lib (PList (map date_as_text scenario)) = Some js"
       "json_loads sample_lib js = Some (PList (map date_as_text scenario))"
       "utf8_encode sample_lib js = Some data" "utf8_decode sample_lib data = Some js"
       "blob = zlib_compress sample_lib data" "zlib_decompress sample_lib blob = Some data"
       "encode_spec sample_lib scenario = Inr blob"
       "compress_group sample_lib ((2023, 5, 1), scenario) = Inr ((2023, 5, 1), blob)"
    by blast
  from s(1) scenario_dumps have js: "js = scenario_text" by simp
  from s show ?thesis
    unfolding js scenario_rows using sample_lib_contract scenario_dumps by blast
qed

theorem decompress_compress_group_witness:
  "lib_contract sample_lib \<and>
   (\<exists>blob. compress_group sample_lib ((2023, 5, 1), scenario) = Inr ((2023, 5, 1), blob) \<and>
      decompress_group sample_lib ((2023, 5, 1), blob) =
        Inr [[PDate (2023, 5, 1), PStr ''BUY'', PStr ''ABCD'', PInt 100, PFloat 1234],
             [PDate (2023, 5, 1), PStr ''SELL'', PStr ''WXYZ'', PInt 50, PFloat 9999],
             [PDate (2023, 5, 2), PStr ''BUY'', PStr ''ABCD'', PInt 10, PFloat 500]])"
  using decompress_compress_group [OF sample_lib_contract scenario_valid, of "(2023, 5, 1)"]
    sample_lib_contract
  unfolding scenario_tuples by (rule conjI [rotated])

theorem pipeline_roundtrip_witness:
  "lib_contract sample_lib \<and>
   (\<exists>blobs out. write_phase sample_lib 4 [1, 0] scenario = Inr blobs \<and>
      read_phase sample_lib 4 [1, 0] (rev blobs) = Inr out \<and>
      mset out =
        {#[PDate (2023, 5, 1), PStr ''BUY'', PStr ''ABCD'', PInt 100, PFloat 1234],
          [PDate (2023, 5, 1), PStr ''SELL'', PStr ''WXYZ'', PInt 50, PFloat 9999],
          [PDate (2023, 5, 2), PStr ''BUY'', PStr ''ABCD'', PInt 10, PFloat 500]#})"
proof -
  from pipeline_roundtrip [OF sample_lib_contract scenario_valid, of 4 "[1, 0]" 4 "[1, 0]"]
  obtain blobs where w: "write_phase sample_lib 4 [1, 0] scenario = Inr blobs"
    and r: "\<And>rows. mset rows = mset blobs \<Longrightarrow>
              \<exists>out. read_phase sample_lib 4 [1, 0] rows = Inr out \<and>
                mset out = mset (map as_tuple scenario)"
    by blast
  from r [of "rev blobs"] obtain out where
    "read_phase sample_lib 4 [1, 0] (rev blobs) = Inr out" "mset out = mset (map as_tuple scenario)"
    by auto
  with w have "\<exists>blobs out. write_phase sample_lib 4 [1, 0] scenario = Inr blobs \<and>
      read_phase sample_lib 4 [1, 0] (rev blobs) = Inr out \<and>
      mset out = mset (map as_tuple scenario)"
    by blast
  then have "\<exists>blobs out. write_phase sample_lib 4 [1, 0] scenario = Inr blobs \<and>
      read_phase sample_lib 4 [1, 0] (rev blobs) = Inr out \<and>
      mset out =
        {#[PDate (2023, 5, 1), PStr ''BUY'', PStr ''ABCD'', PInt 100, PFloat 1234],
          [PDate (2023, 5, 1), PStr ''SELL'', PStr ''WXYZ'', PInt 50, PFloat 9999],
          [PDate (2023, 5, 2), PStr ''BUY'', PStr ''ABCD'', PInt 10, PFloat 500]#}"
    unfolding scenario_tuples by (simp add: add_mset_commute)
  with sample_lib_contract show ?thesis by (rule conjI)
qed

section \<open>Failures of the decoder\<close>

lemma reconstruct_not_corrupt: "reconstruct L v \<noteq> Inl CorruptBlobError"
  by (induction L v rule: reconstruct.induct) (auto split: option.splits)

lemma py_iter_not_corrupt: "py_iter v \<noteq> Inl CorruptBlobError"
  by (cases v) auto

text \<open>
  Claim C4, as amended.  When \<^verbatim>\<open>zlib.decompress\<close>, the UTF-8 decoding or
  \<^verbatim>\<open>json.loads\<close> fails on a row, \<open>decompress_group\<close> raises the exception of
  that library function (\<^verbatim>\<open>zlib.error\<close>, UnicodeDecodeError,
  \<^verbatim>\<open>json.JSONDecodeError\<close>) and returns no records.  On no row does it raise a
  CorruptBlobError.
\<close>

theorem decompress_group_failures:
  "(zlib_decompress L (snd row) = None \<longrightarrow> decompress_group L row = Inl ZlibError) \<and>
   (\<forall>data. zlib_decompress L (snd row) = Some data \<longrightarrow> utf8_decode L data = None \<longrightarrow>
      decompress_group L row = Inl UnicodeDecodeError) \<and>
   (\<forall>data js. zlib_decompress L (snd row) = Some data \<longrightarrow> utf8_decode L data = Some js \<longrightarrow>
      json_loads L js = None \<longrightarrow> decompress_group L row = Inl JSONDecodeError) \<and>
   decompress_group L row \<noteq> Inl CorruptBlobError"
proof -
  have "for_each (reconstruct L) rs \<noteq> Inl CorruptBlobError" for rs
    using for_each_Inl [of "reconstruct L" rs CorruptBlobError] reconstruct_not_corrupt [of L]
    by blast
  then have "decompress_group L row \<noteq> Inl CorruptBlobError"
    using py_iter_not_corrupt
    by (auto simp: decompress_group_def split: option.splits sum.splits)
  then show ?thesis
    by (simp add: decompress_group_def)
qed

lemma inflate_empty: "zlib_decompress sample_lib [] = None"
  by (simp add: sample_lib_def inflate_def)

lemma inflate_ff:
  "zlib_decompress sample_lib (deflate_stored [0xFF]) = Some [0xFF]"
  "utf8_decode sample_lib [0xFF] = None"
  by (simp_all add: sample_lib_def inflate_deflate)

theorem decompress_group_failures_witness:
  "zlib_decompress sample_lib [] = None \<and>
   decompress_group sample_lib ((2023, 5, 1), []) = Inl ZlibError \<and>
   zlib_decompress sample_lib (deflate_stored [0xFF]) = Some [0xFF] \<and>
   utf8_decode sample_lib [0xFF] = None \<and>
   decompress_group sample_lib ((2023, 5, 1), deflate_stored [0xFF]) = Inl UnicodeDecodeError"
proof -
  have "decompress_group sample_lib ((2023, 5, 1), []) = Inl ZlibError"
    using decompress_group_failures [of sample_lib "((2023, 5, 1), [])", THEN conjunct1]
      inflate_empty
    by simp
  moreover have "decompress_group sample_lib ((2023, 5, 1), deflate_stored [0xFF])
      = Inl UnicodeDecodeError"
    using decompress_group_failures [of sample_lib "((2023, 5, 1), deflate_stored [0xFF])",
        THEN conjunct2, THEN conjunct1]
      inflate_ff
    by simp
  ultimately show ?thesis
    using inflate_empty inflate_ff by (intro conjI)
qed

text \<open>
  The empty blob: \<^verbatim>\<open>zlib.decompress(b'')\<close> fails, and the exception that
  \<open>decompress_group\<close> raises is \<^verbatim>\<open>zlib.error\<close>, not a CorruptBlobError.  A blob
  whose content is not UTF-8 raises another one, UnicodeDecodeError.
\<close>

theorem decompress_group_counterexample:
  "zlib_decompress sample_lib [] = None \<and>
   decompress_group sample_lib ((2023, 5, 1), []) = Inl ZlibError \<and>
   decompress_group sample_lib ((2023, 5, 1), []) \<noteq> Inl CorruptBlobError \<and>
   decompress_group sample_lib ((2023, 5, 1), deflate_stored [0xFF]) = Inl UnicodeDecodeError"
  by (simp add: decompress_group_def inflate_empty inflate_ff)

section \<open>Failures in the pool\<close>

lemma pool_map_two_failures:
  assumes "f r0 = Inl e0" and "f r1 = Inl e1"
  shows "pool_map 4 [1, 0] f [r0, r1] = Inl e1" and "for_each f [r0, r1] = Inl e0"
proof -
  have c: "chunk_size (length [r0, r1]) 4 = 1"
    by (simp add: chunk_size_def)
  have t: "chunks 1 [r0, r1] = [[r0], [r1]]"
    by (simp add: chunks.simps [of _ "[r0, r1]"] chunks.simps [of _ "[r1]"] chunks_Nil)
  have ff: "first_failure [1, 0] (map (for_each f) [[r0], [r1]]) = Some e1"
    by (simp add: first_failure_def assms)
  show "pool_map 4 [1, 0] f [r0, r1] = Inl e1"
    unfolding pool_map_def Let_def c t ff by simp
  show "for_each f [r0, r1] = Inl e0"
    by (simp add: assms)
qed

text \<open>
  Two rows that both fail, the second task completing first: the pool raises
  the exception of the second row, the sequential loop that of the first.
\<close>

theorem pool_map_counterexample:
  "pool_map 4 [1, 0] (decompress_group sample_lib)
     [((2023, 5, 1), []), ((2023, 5, 2), deflate_stored [0xFF])] = Inl UnicodeDecodeError \<and>
   for_each (decompress_group sample_lib)
     [((2023, 5, 1), []), ((2023, 5, 2), deflate_stored [0xFF])] = Inl ZlibError"
proof -
  have a: "decompress_group sample_lib ((2023, 5, 1), []) = Inl ZlibError"
    by (simp add: decompress_group_def inflate_empty)
  have b: "decompress_group sample_lib ((2023, 5, 2), deflate_stored [0xFF]) = Inl UnicodeDecodeError"
    by (simp add: decompress_group_def inflate_ff)
  from pool_map_two_failures [where f = "decompress_group sample_lib", OF a b]
  show ?thesis by (rule conjI)
qed

theorem pool_map_sequential_witness:
  "pool_map 4 [1, 0] (\<lambda>n. if n < (10::nat) then Inr (n + 1) else Inl ValueError) [1, 2, 3]
     = Inr [2, 3, 4] \<and>
   for_each (\<lambda>n. if n < (10::nat) then Inr (n + 1) else Inl ValueError) [1, 2, 3] = Inr [2, 3, 4] \<and>
   (\<exists>e. pool_map 4 [1, 0] (\<lambda>n. if n < (10::nat) then Inr (n + 1) else Inl ValueError) [1, 20, 3]
     = Inl e)"
proof -
  let ?f = "\<lambda>n. if n < (10::nat) then Inr (n + 1) else Inl ValueError"
  note p = pool_map_sequential [of _ ?f 4 "[1, 0]"]
  have "pool_map 4 [1, 0] ?f [1, 2, 3] = for_each ?f [1, 2, 3]"
    using p [of "[1, 2, 3]", THEN conjunct1] by simp
  moreover have "for_each ?f [1, 2, 3] = Inr [2, 3, 4]" by simp
  moreover have "\<exists>e. pool_map 4 [1, 0] ?f [1, 20, 3] = Inl e"
    using p [of "[1, 20, 3]", THEN conjunct2] by auto
  ultimately show ?thesis by simp
qed

end
